theory Spec2Isabelle
  imports Complex_Main
begin

section \<open>JavaScript numbers\<close>

text \<open>
  The component computes with JavaScript numbers, the binary64 numbers of IEEE 754. A
  number is \<open>NaN\<close>, one of the two infinities, or a finite value \<open>Fin x\<close>; every
  arithmetic operation computes the exact real result and rounds it to the nearest
  binary64 number, ties to the even significand, overflowing to an infinity.

  \<open>round_even\<close> rounds a real to the nearest integer, ties to even. \<open>exponent a\<close> is
  the binade of \<open>a\<close>: the \<open>e\<close> in \<open>[-1022, 1023]\<close> with \<open>2^e \<le> a < 2^(e+1)\<close>,
  clamped at both ends, found by counting up from \<open>-1022\<close>. Numbers of binade \<open>e\<close> are
  the multiples of \<open>2^(e-52)\<close> (\<open>ulp\<close>), and \<open>flr x\<close> is the multiple nearest to \<open>x\<close>.

  Zero carries no sign: every divisor of the modelled code is a difference or quotient
  of non-negative integers, so a negative zero never reaches a division. A value
  \<open>Fin x\<close> stands for a JavaScript number only when \<open>x\<close> is a binary64 number
  (\<open>double x\<close>); integers below \<open>2^53\<close> in size are.
\<close>

datatype jsnum = NaN | PInf | NInf | Fin real

definition round_even :: "real \<Rightarrow> int" where
  "round_even r =
     (let f = \<lfloor>r\<rfloor>; d = r - of_int f
      in if d < 1 / 2 then f else if 1 / 2 < d then f + 1 else if even f then f else f + 1)"

fun binade :: "nat \<Rightarrow> int \<Rightarrow> real \<Rightarrow> int" where
  "binade 0 e a = e"
| "binade (Suc n) e a = (if 2 powi (e + 1) \<le> a then binade n (e + 1) a else e)"

definition exponent :: "real \<Rightarrow> int" where
  "exponent a = binade 2045 (- 1022) a"

definition ulp :: "real \<Rightarrow> real" where
  "ulp x = 2 powi (exponent \<bar>x\<bar> - 52)"

definition flr :: "real \<Rightarrow> real" where
  "flr x = of_int (round_even (x / ulp x)) * ulp x"

definition fl :: "real \<Rightarrow> jsnum" where
  "fl x = (if 2 powi 1024 \<le> \<bar>flr x\<bar> then (if 0 < x then PInf else NInf) else Fin (flr x))"

definition double :: "real \<Rightarrow> bool" where
  "double x \<longleftrightarrow> fl x = Fin x"

fun js_div :: "jsnum \<Rightarrow> jsnum \<Rightarrow> jsnum" where
  "js_div (Fin a) (Fin b) =
     (if b = 0 then (if a = 0 then NaN else if 0 < a then PInf else NInf)
      else fl (a / b))"
| "js_div (Fin a) PInf = Fin 0"
| "js_div (Fin a) NInf = Fin 0"
| "js_div PInf (Fin b) = (if 0 \<le> b then PInf else NInf)"
| "js_div NInf (Fin b) = (if 0 \<le> b then NInf else PInf)"
| "js_div _ _ = NaN"

fun js_mul :: "jsnum \<Rightarrow> jsnum \<Rightarrow> jsnum" where
  "js_mul (Fin a) (Fin b) = fl (a * b)"
| "js_mul (Fin a) PInf = (if a = 0 then NaN else if 0 < a then PInf else NInf)"
| "js_mul (Fin a) NInf = (if a = 0 then NaN else if 0 < a then NInf else PInf)"
| "js_mul PInf (Fin b) = (if b = 0 then NaN else if 0 < b then PInf else NInf)"
| "js_mul NInf (Fin b) = (if b = 0 then NaN else if 0 < b then NInf else PInf)"
| "js_mul PInf PInf = PInf"
| "js_mul NInf NInf = PInf"
| "js_mul PInf NInf = NInf"
| "js_mul NInf PInf = NInf"
| "js_mul _ _ = NaN"

fun js_sub :: "jsnum \<Rightarrow> jsnum \<Rightarrow> jsnum" where
  "js_sub (Fin a) (Fin b) = fl (a - b)"
| "js_sub (Fin a) PInf = NInf"
| "js_sub (Fin a) NInf = PInf"
| "js_sub PInf (Fin b) = PInf"
| "js_sub NInf (Fin b) = NInf"
| "js_sub PInf NInf = PInf"
| "js_sub NInf PInf = NInf"
| "js_sub _ _ = NaN"

text \<open>The comparison \<open>a > b\<close>: false as soon as one side is \<open>NaN\<close>.\<close>

fun js_gt :: "jsnum \<Rightarrow> jsnum \<Rightarrow> bool" where
  "js_gt (Fin a) (Fin b) = (b < a)"
| "js_gt PInf (Fin b) = True"
| "js_gt PInf NInf = True"
| "js_gt (Fin a) NInf = True"
| "js_gt _ _ = False"

text \<open>\<open>Math.min\<close> and \<open>Math.max\<close> of two arguments return \<open>NaN\<close> when either is \<open>NaN\<close>.\<close>

fun Math_min :: "jsnum \<Rightarrow> jsnum \<Rightarrow> jsnum" where
  "Math_min NaN _ = NaN"
| "Math_min _ NaN = NaN"
| "Math_min a b = (if js_gt a b then b else a)"

fun Math_max :: "jsnum \<Rightarrow> jsnum \<Rightarrow> jsnum" where
  "Math_max NaN _ = NaN"
| "Math_max _ NaN = NaN"
| "Math_max a b = (if js_gt b a then b else a)"

text \<open>\<open>Math.floor\<close> and \<open>Math.ceil\<close> are exact.\<close>

fun Math_floor :: "jsnum \<Rightarrow> jsnum" where
  "Math_floor (Fin a) = Fin (of_int \<lfloor>a\<rfloor>)"
| "Math_floor x = x"

fun Math_ceil :: "jsnum \<Rightarrow> jsnum" where
  "Math_ceil (Fin a) = Fin (of_int \<lceil>a\<rceil>)"
| "Math_ceil x = x"

fun isFinite :: "jsnum \<Rightarrow> bool" where
  "isFinite (Fin a) = True"
| "isFinite _ = False"

text \<open>
  Reading \<open>xs[k]\<close> for a number \<open>k\<close>: the element when \<open>k\<close> is an integer in
  \<open>[0, xs.length)\<close>, and \<open>undefined\<close> (here \<open>None\<close>) for every other number, \<open>NaN\<close>
  and the infinities included.
\<close>

fun js_index :: "'a list \<Rightarrow> jsnum \<Rightarrow> 'a option" where
  "js_index xs (Fin a) =
     (if of_int \<lfloor>a\<rfloor> = a \<and> 0 \<le> a \<and> nat \<lfloor>a\<rfloor> < length xs
      then Some (xs ! nat \<lfloor>a\<rfloor>) else None)"
| "js_index xs _ = None"

section \<open>The scroll scrubber of the in-app preview\<close>

text \<open>
  A stored frame is an off-screen canvas of the video's intrinsic size. When the canvas
  had a 2D context it holds the picture the video showed at the capture, identified by
  the playback time (\<open>video.currentTime\<close>); when \<open>getContext('2d')\<close> gave \<open>null\<close>
  the optional call drew nothing and the canvas is blank (\<open>None\<close>).
\<close>

record bitmap =
  width :: nat
  height :: nat
  stamp :: "jsnum option"

datatype canvas_call =
  ClearRect jsnum jsnum jsnum jsnum
| DrawImage bitmap jsnum jsnum jsnum jsnum

text \<open>
  The output canvas: its size, whether \<open>getContext('2d')\<close> yields a context, and the
  drawing calls made on that context so far (most recent last).
\<close>

record canvas =
  cwidth :: nat
  cheight :: nat
  ctx2d :: bool
  calls :: "canvas_call list"

record container =
  scrollTop :: real
  scrollHeight :: int
  clientHeight :: int

text \<open>\<open>scrollTop / (container.scrollHeight - container.clientHeight)\<close>\<close>

definition scrollRatio :: "container \<Rightarrow> jsnum" where
  "scrollRatio k =
     js_div (Fin (scrollTop k))
       (js_sub (Fin (of_int (scrollHeight k))) (Fin (of_int (clientHeight k))))"

text \<open>\<open>Math.max(0, Math.min(1, ratio))\<close>\<close>

definition scrollPercent :: "jsnum \<Rightarrow> jsnum" where
  "scrollPercent ratio = Math_max (Fin 0) (Math_min (Fin 1) ratio)"

text \<open>\<open>Math.floor(scrollPercent * (frames.length - 1))\<close>\<close>

definition frameIndex :: "jsnum \<Rightarrow> 'a list \<Rightarrow> jsnum" where
  "frameIndex p fs = Math_floor (js_mul p (js_sub (Fin (real (length fs))) (Fin 1)))"

text \<open>The cover logic: the rectangle \<open>(offsetX, offsetY, drawWidth, drawHeight)\<close>.\<close>

record draw_rect =
  offsetX :: jsnum
  offsetY :: jsnum
  drawWidth :: jsnum
  drawHeight :: jsnum

definition coverFit :: "nat \<Rightarrow> nat \<Rightarrow> nat \<Rightarrow> nat \<Rightarrow> draw_rect" where
  "coverFit fw fh cw ch =
     (let frameAspect = js_div (Fin (real fw)) (Fin (real fh));
          canvasAspect = js_div (Fin (real cw)) (Fin (real ch))
      in if js_gt canvasAspect frameAspect
         then let dw = Fin (real cw); dh = js_div (Fin (real cw)) frameAspect
              in \<lparr>offsetX = Fin 0,
                  offsetY = js_div (js_sub (Fin (real ch)) dh) (Fin 2),
                  drawWidth = dw, drawHeight = dh\<rparr>
         else let dh = Fin (real ch); dw = js_mul (Fin (real ch)) frameAspect
              in \<lparr>offsetX = js_div (js_sub (Fin (real cw)) dw) (Fin 2),
                  offsetY = Fin 0,
                  drawWidth = dw, drawHeight = dh\<rparr>)"

text \<open>
  The decoding video of a sampling run as the sampler sees it once its metadata has
  loaded.
\<close>

record video =
  duration :: jsnum
  videoWidth :: nat
  videoHeight :: nat

text \<open>
  Where a sampling run is: suspended at the first \<open>await\<close> or at the \<open>await\<close> of
  iteration \<open>i\<close>; \<open>Finished\<close> after \<open>setIsReady(true)\<close>, \<open>Returned\<close> after the
  \<open>return\<close> of a cancelled run, \<open>Caught\<close> after the \<open>catch\<close> block, and \<open>Stalled\<close>
  when the awaited promise can no longer be resolved.
\<close>

datatype pc =
  AwaitMetadata
| AwaitSeeked nat
| Finished
| Returned
| Caught
| Stalled

text \<open>
  What one run of the first effect owns: its \<open>isActive\<close> flag, the position of its
  \<open>extractFrames\<close>, and its video element with the playback position.
\<close>

record sampling =
  run_isActive :: bool
  run_pc :: pc
  run_currentTime :: jsnum
  run_source :: video

text \<open>
  The state of a mounted preview component. The flag, position, playback position and
  video of the current run of the first effect; what all runs share: the stored frames
  (\<open>framesRef\<close>), the values passed to \<open>setLoadingProgress\<close> (most recent last), the
  ready flag, the messages written by \<open>console.error\<close>, the two DOM nodes behind the
  refs (\<open>None\<close> for a null ref) and the window's inner size; the earlier runs of the
  effect, whose cleanup has run but whose videos can still deliver events; and the
  exceptions no handler of the component caught, which the browser reports to the page.
\<close>

record preview =
  isActive :: bool
  pc :: pc
  currentTime :: jsnum
  frames :: "bitmap list"
  loadingProgress :: "jsnum list"
  isReady :: bool
  console_error :: "string list"
  canvasRef :: "canvas option"
  containerRef :: "container option"
  innerWidth :: nat
  innerHeight :: nat
  source :: video
  stale :: "sampling list"
  uncaught :: "string list"

text \<open>
  \<open>handleScroll\<close>: nothing happens without the two nodes, without a frame at the
  computed index, or without a 2D context; otherwise the canvas is cleared and the frame
  drawn into the cover rectangle.
\<close>

definition selectedFrame :: "container \<Rightarrow> bitmap list \<Rightarrow> bitmap option" where
  "selectedFrame k fs = js_index fs (frameIndex (scrollPercent (scrollRatio k)) fs)"

definition drawFrame :: "bitmap \<Rightarrow> canvas \<Rightarrow> canvas" where
  "drawFrame frame c =
     (let r = coverFit (width frame) (height frame) (cwidth c) (cheight c)
      in c\<lparr>calls := calls c @
           [ClearRect (Fin 0) (Fin 0) (Fin (real (cwidth c))) (Fin (real (cheight c))),
            DrawImage frame (offsetX r) (offsetY r) (drawWidth r) (drawHeight r)]\<rparr>)"

definition handleScroll :: "preview \<Rightarrow> preview" where
  "handleScroll s =
     (case (containerRef s, canvasRef s) of
        (Some k, Some c) \<Rightarrow>
          (case selectedFrame k (frames s) of
             Some frame \<Rightarrow>
               if ctx2d c then s\<lparr>canvasRef := Some (drawFrame frame c)\<rparr> else s
           | None \<Rightarrow> s)
      | _ \<Rightarrow> s)"

text \<open>
  \<open>handleResize\<close>: with a canvas, take the window's inner size and redraw; without
  one, nothing.
\<close>

definition handleResize :: "preview \<Rightarrow> preview" where
  "handleResize s =
     (case canvasRef s of
        Some c \<Rightarrow>
          handleScroll
            (s\<lparr>canvasRef := Some (c\<lparr>cwidth := innerWidth s, cheight := innerHeight s\<rparr>)\<rparr>)
      | None \<Rightarrow> s)"

text \<open>
  The second effect registers the two listeners only when it runs with \<open>isReady\<close> set:
  a \<open>scroll\<close> event of the container and a \<open>resize\<close> event of the window reach
  \<open>handleScroll\<close> and \<open>handleResize\<close> only then.
\<close>

definition onScroll :: "preview \<Rightarrow> preview" where
  "onScroll s = (if isReady s then handleScroll s else s)"

definition onResize :: "preview \<Rightarrow> preview" where
  "onResize s = (if isReady s then handleResize s else s)"

section \<open>The frame sampler of the in-app preview\<close>

text \<open>
  \<open>extractFrames\<close> is an asynchronous function: it runs until it awaits an event of its
  video element and goes on when the event's listener resolves the awaited promise. The
  model is a transition system whose steps are the events the browser delivers. The
  events of a video element:
  \<^item> \<open>LoadedMetadata\<close>: the \<open>loadedmetadata\<close> event;
  \<^item> \<open>Seeked\<close>: the \<open>seeked\<close> event, the new canvas giving a 2D context and the capture
    in the listener succeeding;
  \<^item> \<open>SeekedNoContext\<close>: the \<open>seeked\<close> event, \<open>getContext('2d')\<close> of the new canvas
    giving \<open>null\<close>;
  \<^item> \<open>SeekedCaptureThrows\<close>: the \<open>seeked\<close> event, \<open>drawImage\<close> in the listener
    throwing;
  \<^item> \<open>VideoError\<close>: the \<open>error\<close> event (the source cannot be loaded).
  The events of the component: \<open>Video e\<close>, an event of the current run's video;
  \<open>Stale j e\<close>, an event of the video of the earlier run \<open>j\<close>; \<open>Cleanup\<close>, React
  running the effect's cleanup at unmount; \<open>UrlChanged v\<close>, the \<open>videoUrl\<close> prop
  changing to a video \<open>v\<close>, on which React runs the cleanup and then the effect again.
  An event that never comes is an event absent from the trace.

  The number of frames, the constant \<open>FRAME_COUNT = 100\<close> of the component and the
  constant \<open>F = 100\<close> of the kit, is a parameter of the model, so that statements
  about every frame count can be made; the constant itself is \<open>FRAME_COUNT\<close> below.
\<close>

datatype video_event =
  LoadedMetadata | Seeked | SeekedNoContext | SeekedCaptureThrows | VideoError

datatype event =
  Video video_event
| Stale nat video_event
| Cleanup
| UrlChanged video

text \<open>The seek target of iteration \<open>i\<close>: \<open>(duration / FRAME_COUNT) * i\<close>.\<close>

definition seekTime :: "nat \<Rightarrow> video \<Rightarrow> nat \<Rightarrow> jsnum" where
  "seekTime FRAME_COUNT v i =
     js_mul (js_div (duration v) (Fin (real FRAME_COUNT))) (Fin (real i))"

text \<open>\<open>Math.floor((i / FRAME_COUNT) * 100)\<close>\<close>

definition progressOf :: "nat \<Rightarrow> nat \<Rightarrow> jsnum" where
  "progressOf FRAME_COUNT i =
     Math_floor (js_mul (js_div (Fin (real i)) (Fin (real FRAME_COUNT))) (Fin 100))"

text \<open>
  The \<open>for\<close> loop from its test \<open>i < FRAME_COUNT\<close> to the next \<open>await\<close>. Assigning a
  number that is not finite to \<open>video.currentTime\<close> throws a \<open>TypeError\<close>; the
  assignment is inside the \<open>try\<close> block, so the \<open>catch\<close> block logs it.
\<close>

definition iteration :: "nat \<Rightarrow> nat \<Rightarrow> preview \<Rightarrow> preview" where
  "iteration FRAME_COUNT i s =
     (if i < FRAME_COUNT then
        if \<not> isActive s then s\<lparr>pc := Returned\<rparr>
        else if isFinite (seekTime FRAME_COUNT (source s) i)
        then s\<lparr>currentTime := seekTime FRAME_COUNT (source s) i, pc := AwaitSeeked i\<rparr>
        else s\<lparr>console_error := console_error s @ [''Frame extraction failed''],
               pc := Caught\<rparr>
      else s\<lparr>isReady := True, pc := Finished\<rparr>)"

text \<open>
  The \<open>seeked\<close> listener of iteration \<open>i\<close>: a new canvas of the video's size receives
  the picture now shown, if it has a context, and is pushed; the progress is set. The
  listener does not read \<open>isActive\<close>.
\<close>

definition onSeeked :: "nat \<Rightarrow> nat \<Rightarrow> bool \<Rightarrow> preview \<Rightarrow> preview" where
  "onSeeked FRAME_COUNT i ctx s =
     s\<lparr>frames := frames s @
           [\<lparr>width = videoWidth (source s), height = videoHeight (source s),
             stamp = (if ctx then Some (currentTime s) else None)\<rparr>],
       loadingProgress := loadingProgress s @ [progressOf FRAME_COUNT i]\<rparr>"

text \<open>
  One event of the video of the run held in the current-run fields. The only listeners
  are \<open>onloadedmetadata\<close> (resolving the first promise) and, during a seek,
  \<open>onSeeked\<close>; an event without a listener changes nothing. An exception thrown by the
  listener leaves the listener removed and the promise unresolved; it is thrown outside
  the \<open>try\<close> block of the suspended function and reaches no handler of the component.
\<close>

fun video_step :: "nat \<Rightarrow> preview \<Rightarrow> video_event \<Rightarrow> preview" where
  "video_step FRAME_COUNT s VideoError = s"
| "video_step FRAME_COUNT s LoadedMetadata =
     (case pc s of
        AwaitMetadata \<Rightarrow>
          iteration FRAME_COUNT 0
            (s\<lparr>canvasRef :=
                 map_option (\<lambda>c. c\<lparr>cwidth := innerWidth s, cheight := innerHeight s\<rparr>)
                   (canvasRef s)\<rparr>)
      | _ \<Rightarrow> s)"
| "video_step FRAME_COUNT s Seeked =
     (case pc s of
        AwaitSeeked i \<Rightarrow> iteration FRAME_COUNT (Suc i) (onSeeked FRAME_COUNT i True s)
      | _ \<Rightarrow> s)"
| "video_step FRAME_COUNT s SeekedNoContext =
     (case pc s of
        AwaitSeeked i \<Rightarrow> iteration FRAME_COUNT (Suc i) (onSeeked FRAME_COUNT i False s)
      | _ \<Rightarrow> s)"
| "video_step FRAME_COUNT s SeekedCaptureThrows =
     (case pc s of
        AwaitSeeked i \<Rightarrow> s\<lparr>pc := Stalled, uncaught := uncaught s @ [''drawImage'']\<rparr>
      | _ \<Rightarrow> s)"

text \<open>
  Reading the current run out of the state and putting a run into the current-run
  fields; an event of an earlier run is the same listener code running on that run's
  variables and on the shared refs and state.
\<close>

definition the_run :: "preview \<Rightarrow> sampling" where
  "the_run s =
     \<lparr>run_isActive = isActive s, run_pc = pc s, run_currentTime = currentTime s,
      run_source = source s\<rparr>"

definition with_run :: "sampling \<Rightarrow> preview \<Rightarrow> preview" where
  "with_run r s =
     s\<lparr>isActive := run_isActive r, pc := run_pc r, currentTime := run_currentTime r,
       source := run_source r\<rparr>"

text \<open>
  One event of the component. On a change of \<open>videoUrl\<close> the cleanup clears the flag of
  the run that was current, and the effect starts a run on a new video element; the
  frames ref and the ready flag are not reset.
\<close>

fun step :: "nat \<Rightarrow> preview \<Rightarrow> event \<Rightarrow> preview" where
  "step FRAME_COUNT s (Video e) = video_step FRAME_COUNT s e"
| "step FRAME_COUNT s (Stale j e) =
     (if j < length (stale s) then
        let cur = the_run s;
            s1 = video_step FRAME_COUNT (with_run (stale s ! j) s) e
        in with_run cur (s1\<lparr>stale := (stale s)[j := the_run s1]\<rparr>)
      else s)"
| "step FRAME_COUNT s Cleanup = s\<lparr>isActive := False\<rparr>"
| "step FRAME_COUNT s (UrlChanged v) =
     s\<lparr>stale := stale s @ [(the_run s)\<lparr>run_isActive := False\<rparr>],
       isActive := True, pc := AwaitMetadata, currentTime := Fin 0, source := v\<rparr>"

definition run :: "nat \<Rightarrow> preview \<Rightarrow> event list \<Rightarrow> preview" where
  "run FRAME_COUNT s es = foldl (step FRAME_COUNT) s es"

text \<open>
  The component after its first render on the video \<open>v\<close>, \<open>extractFrames\<close> suspended
  at its first \<open>await\<close>.
\<close>

definition mount ::
  "video \<Rightarrow> canvas option \<Rightarrow> container option \<Rightarrow> nat \<Rightarrow> nat \<Rightarrow> preview" where
  "mount v c k w h =
     \<lparr>isActive = True, pc = AwaitMetadata, currentTime = Fin 0, frames = [],
      loadingProgress = [], isReady = False, console_error = [],
      canvasRef = c, containerRef = k, innerWidth = w, innerHeight = h,
      source = v, stale = [], uncaught = []\<rparr>"

definition FRAME_COUNT :: nat where
  "FRAME_COUNT = 100"

section \<open>The frame loop of the GIF export\<close>

text \<open>
  The frame extraction of \<open>handleDownloadGif\<close>, from the computation of \<open>step\<close> on:
  the loop over \<open>i = 0, ..., frames - 1\<close>, the metadata loaded and every awaited
  \<open>seeked\<close> event arriving. The state is the video's playback position and the list of
  pictures taken, each identified by the position it was taken at. A seek happens only
  for \<open>time > 0\<close>; a target that is not finite throws, and the \<open>catch\<close> block reports
  the error. \<open>ctx\<close> says whether the export canvas has a 2D context; without one
  nothing is drawn and nothing pushed.
\<close>

fun gifLoop :: "jsnum \<Rightarrow> bool \<Rightarrow> jsnum \<Rightarrow> nat list \<Rightarrow> jsnum list \<Rightarrow> string + jsnum list" where
  "gifLoop stp ctx cur [] images = Inr images"
| "gifLoop stp ctx cur (i # is) images =
     (let time = js_mul (Fin (real i)) stp in
      if js_gt time (Fin 0) then
        if isFinite time
        then gifLoop stp ctx time is (if ctx then images @ [time] else images)
        else Inl ''Error preparing GIF:''
      else gifLoop stp ctx cur is (if ctx then images @ [cur] else images))"

definition handleDownloadGif :: "jsnum \<Rightarrow> bool \<Rightarrow> int \<Rightarrow> string + jsnum list" where
  "handleDownloadGif dur ctx nframes =
     gifLoop (js_div dur (Fin (of_int nframes))) ctx (Fin 0) [0..<nat nframes] []"

section \<open>The exported HTML kit\<close>

text \<open>
  The inline script of the document written by \<open>handleDownloadHtmlKit\<close>. Its state: the
  frame array \<open>S\<close>, the position of the sampling task, the video's playback position, the
  text of the countdown element \<open>n\<close>, the canvas \<open>c\<close> (whose 2D context \<open>x\<close> the script
  takes once, at its start), the window's inner size, and the exceptions no handler of
  the script caught. The script does not test \<open>x\<close>; its drawing is modelled for a
  canvas that has a context, as the canvas element of the kit's own document has.
\<close>

datatype overlay_text = Countdown jsnum | READY | ERROR

record kit =
  kit_S :: "bitmap list"
  kit_pc :: pc
  kit_currentTime :: jsnum
  kit_n :: overlay_text
  kit_c :: canvas
  kit_innerWidth :: nat
  kit_innerHeight :: nat
  kit_uncaught :: "string list"

text \<open>The rectangle \<open>(X, Y, w, h)\<close> computed by \<open>D\<close> for the frame \<open>m\<close>.\<close>

definition kit_cover :: "bitmap \<Rightarrow> canvas \<Rightarrow> draw_rect" where
  "kit_cover m cv =
     (let a = js_div (Fin (real (width m))) (Fin (real (height m)));
          b = js_div (Fin (real (cwidth cv))) (Fin (real (cheight cv)))
      in if js_gt b a
         then let w = Fin (real (cwidth cv)); h = js_div w a
              in \<lparr>offsetX = Fin 0, offsetY = js_div (js_sub (Fin (real (cheight cv))) h) (Fin 2),
                  drawWidth = w, drawHeight = h\<rparr>
         else let h = Fin (real (cheight cv)); w = js_mul h a
              in \<lparr>offsetX = js_div (js_sub (Fin (real (cwidth cv))) w) (Fin 2), offsetY = Fin 0,
                  drawWidth = w, drawHeight = h\<rparr>)"

text \<open>\<open>D(p)\<close>: the index \<open>Math.floor(p * (S.length - 1))\<close>, no clamping of \<open>p\<close>.\<close>

definition kit_index :: "jsnum \<Rightarrow> bitmap list \<Rightarrow> jsnum" where
  "kit_index p fs = Math_floor (js_mul p (js_sub (Fin (real (length fs))) (Fin 1)))"

definition kit_D :: "jsnum \<Rightarrow> kit \<Rightarrow> kit" where
  "kit_D p s =
     (case js_index (kit_S s) (kit_index p (kit_S s)) of
        None \<Rightarrow> s
      | Some m \<Rightarrow>
          (let r = kit_cover m (kit_c s)
           in s\<lparr>kit_c := (kit_c s)\<lparr>calls := calls (kit_c s) @
                [ClearRect (Fin 0) (Fin 0) (Fin (real (cwidth (kit_c s))))
                   (Fin (real (cheight (kit_c s)))),
                 DrawImage m (offsetX r) (offsetY r) (drawWidth r) (drawHeight r)]\<rparr>\<rparr>))"

text \<open>\<open>R\<close>, the resize listener: take the window's size and draw at fraction 0.\<close>

definition kit_R :: "kit \<Rightarrow> kit" where
  "kit_R s =
     kit_D (Fin 0)
       (s\<lparr>kit_c := (kit_c s)\<lparr>cwidth := kit_innerWidth s, cheight := kit_innerHeight s\<rparr>\<rparr>)"

text \<open>
  The \<open>scroll\<close> listener, reading the document element's scroll metrics, and the
  \<open>message\<close> listener for a message of type \<open>scroll\<close> carrying \<open>percent\<close>. Both are
  registered when the script starts.
\<close>

definition kit_onscroll :: "container \<Rightarrow> kit \<Rightarrow> kit" where
  "kit_onscroll doc s =
     kit_D (js_div (Fin (scrollTop doc))
              (js_sub (Fin (of_int (scrollHeight doc))) (Fin (of_int (clientHeight doc))))) s"

definition kit_onmessage :: "jsnum \<Rightarrow> kit \<Rightarrow> kit" where
  "kit_onmessage percent s = kit_D percent s"

text \<open>The seek target \<open>d / F * i\<close> and the countdown \<open>Math.max(1, Math.ceil(10 - g * 9))\<close>.\<close>

definition kit_seekTime :: "nat \<Rightarrow> video \<Rightarrow> nat \<Rightarrow> jsnum" where
  "kit_seekTime F v i = js_mul (js_div (duration v) (Fin (real F))) (Fin (real i))"

definition kit_countdown :: "nat \<Rightarrow> nat \<Rightarrow> jsnum" where
  "kit_countdown F len =
     (let g = js_div (Fin (real len)) (Fin (real F))
      in Math_max (Fin 1) (Math_ceil (js_sub (Fin 10) (js_mul g (Fin 9)))))"

definition kit_iteration :: "nat \<Rightarrow> video \<Rightarrow> nat \<Rightarrow> kit \<Rightarrow> kit" where
  "kit_iteration F v i s =
     (if i < F then
        if isFinite (kit_seekTime F v i)
        then s\<lparr>kit_currentTime := kit_seekTime F v i, kit_pc := AwaitSeeked i\<rparr>
        else s\<lparr>kit_n := ERROR, kit_pc := Caught\<rparr>
      else kit_R (s\<lparr>kit_n := READY, kit_pc := Finished\<rparr>))"

definition kit_onSeeked :: "nat \<Rightarrow> video \<Rightarrow> kit \<Rightarrow> kit" where
  "kit_onSeeked F v s =
     s\<lparr>kit_S := kit_S s @
          [\<lparr>width = videoWidth v, height = videoHeight v, stamp = Some (kit_currentTime s)\<rparr>],
       kit_n := Countdown (kit_countdown F (Suc (length (kit_S s))))\<rparr>"

text \<open>
  One event of the kit's video. The script has no cancellation. Its \<open>seeked\<close> listener
  calls \<open>getContext("2d").drawImage\<close> without a test, so a \<open>null\<close> context throws in
  the listener like a failing \<open>drawImage\<close>: the promise stays unresolved.
\<close>

fun kit_step :: "nat \<Rightarrow> video \<Rightarrow> kit \<Rightarrow> video_event \<Rightarrow> kit" where
  "kit_step F v s VideoError = s"
| "kit_step F v s LoadedMetadata =
     (case kit_pc s of AwaitMetadata \<Rightarrow> kit_iteration F v 0 s | _ \<Rightarrow> s)"
| "kit_step F v s Seeked =
     (case kit_pc s of
        AwaitSeeked i \<Rightarrow> kit_iteration F v (Suc i) (kit_onSeeked F v s)
      | _ \<Rightarrow> s)"
| "kit_step F v s SeekedNoContext =
     (case kit_pc s of
        AwaitSeeked i \<Rightarrow> s\<lparr>kit_pc := Stalled, kit_uncaught := kit_uncaught s @ [''TypeError'']\<rparr>
      | _ \<Rightarrow> s)"
| "kit_step F v s SeekedCaptureThrows =
     (case kit_pc s of
        AwaitSeeked i \<Rightarrow> s\<lparr>kit_pc := Stalled, kit_uncaught := kit_uncaught s @ [''drawImage'']\<rparr>
      | _ \<Rightarrow> s)"

definition kit_run :: "nat \<Rightarrow> video \<Rightarrow> kit \<Rightarrow> video_event list \<Rightarrow> kit" where
  "kit_run F v s es = foldl (kit_step F v) s es"

definition kit_start :: "canvas \<Rightarrow> nat \<Rightarrow> nat \<Rightarrow> kit" where
  "kit_start cv w h =
     \<lparr>kit_S = [], kit_pc = AwaitMetadata, kit_currentTime = Fin 0,
      kit_n = Countdown (Fin 10), kit_c = cv, kit_innerWidth = w, kit_innerHeight = h,
      kit_uncaught = []\<rparr>"

section \<open>Concrete inputs\<close>



definition canvas0 :: canvas where
  "canvas0 = \<lparr>cwidth = 300, cheight = 150, ctx2d = True, calls = []\<rparr>"

definition container0 :: container where
  "container0 = \<lparr>scrollTop = 1600, scrollHeight = 4000, clientHeight = 800\<rparr>"

definition container_flat :: container where
  "container_flat = \<lparr>scrollTop = 0, scrollHeight = 800, clientHeight = 800\<rparr>"

definition video0 :: video where
  "video0 = \<lparr>duration = Fin 12, videoWidth = 640, videoHeight = 360\<rparr>"

definition ready0 :: preview where
  "ready0 =
     \<lparr>isActive = True, pc = Finished, currentTime = Fin 2, frames =
        [\<lparr>width = 4, height = 3, stamp = Some (Fin 0)\<rparr>,
         \<lparr>width = 4, height = 3, stamp = Some (Fin 1)\<rparr>,
         \<lparr>width = 4, height = 3, stamp = Some (Fin 2)\<rparr>],
      loadingProgress = [Fin 0, Fin 33, Fin 66], isReady = True, console_error = [],
      canvasRef = Some canvas0, containerRef = Some container0,
      innerWidth = 1600, innerHeight = 900,
      source = \<lparr>duration = Fin 3, videoWidth = 4, videoHeight = 3\<rparr>, stale = [],
      uncaught = []\<rparr>"

section \<open>Binary64 rounding\<close>

lemma round_even_bounds: "\<lfloor>r\<rfloor> \<le> round_even r" "round_even r \<le> \<lfloor>r\<rfloor> + 1"
  by (simp_all add: round_even_def Let_def)

lemma round_even_of_int [simp]: "round_even (of_int n) = n"
  by (simp add: round_even_def)

lemma round_even_mono:
  assumes "r \<le> s"
  shows "round_even r \<le> round_even s"
proof (cases "\<lfloor>r\<rfloor> = \<lfloor>s\<rfloor>")
  case True
  have "r - of_int \<lfloor>r\<rfloor> \<le> s - of_int \<lfloor>s\<rfloor>" using assms True by simp
  then show ?thesis using True by (auto simp add: round_even_def Let_def)
next
  case False
  then have "\<lfloor>r\<rfloor> < \<lfloor>s\<rfloor>" using floor_mono [OF assms] by linarith
  then have "round_even r \<le> \<lfloor>s\<rfloor>" using round_even_bounds(2) [of r] by linarith
  then show ?thesis using round_even_bounds(1) [of s] by linarith
qed

lemma round_even_error: "\<bar>of_int (round_even r) - r\<bar> \<le> 1 / 2"
proof -
  have "of_int \<lfloor>r\<rfloor> \<le> r" "r < of_int \<lfloor>r\<rfloor> + 1" by linarith+
  then show ?thesis by (auto simp add: round_even_def Let_def)
qed

lemma round_even_ge: "of_int n \<le> r \<Longrightarrow> n \<le> round_even r"
  using round_even_mono [of "of_int n" r] by simp

lemma round_even_le: "r \<le> of_int n \<Longrightarrow> round_even r \<le> n"
  using round_even_mono [of r "of_int n"] by simp

lemma binade_spec:
  "e \<le> binade n e a \<and> binade n e a \<le> e + int n
   \<and> (e < binade n e a \<longrightarrow> 2 powi (binade n e a) \<le> a)
   \<and> (binade n e a < e + int n \<longrightarrow> a < 2 powi (binade n e a + 1))"
proof (induction n arbitrary: e)
  case 0
  then show ?case by simp
next
  case (Suc n)
  show ?case
  proof (cases "2 powi (e + 1) \<le> a")
    case True
    have ih: "e + 1 \<le> binade n (e + 1) a \<and> binade n (e + 1) a \<le> e + 1 + int n
       \<and> (e + 1 < binade n (e + 1) a \<longrightarrow> 2 powi (binade n (e + 1) a) \<le> a)
       \<and> (binade n (e + 1) a < e + 1 + int n \<longrightarrow> a < 2 powi (binade n (e + 1) a + 1))"
      by (rule Suc.IH)
    have "2 powi (binade n (e + 1) a) \<le> a"
    proof (cases "e + 1 < binade n (e + 1) a")
      case True
      then show ?thesis using ih by blast
    next
      case False
      then have "binade n (e + 1) a = e + 1" using ih by linarith
      then show ?thesis using \<open>2 powi (e + 1) \<le> a\<close> by simp
    qed
    then show ?thesis using True ih by auto
  next
    case False
    then show ?thesis by auto
  qed
qed

lemma exponent_range: "- 1022 \<le> exponent a" "exponent a \<le> 1023"
  using binade_spec [of "- 1022" 2045 a] by (simp_all add: exponent_def)

lemma exponent_lower: "- 1022 < exponent a \<Longrightarrow> 2 powi (exponent a) \<le> a"
  using binade_spec [of "- 1022" 2045 a] by (simp add: exponent_def)

lemma exponent_upper: "exponent a < 1023 \<Longrightarrow> a < 2 powi (exponent a + 1)"
  using binade_spec [of "- 1022" 2045 a] by (simp add: exponent_def)

lemma exponent_mono:
  assumes "a \<le> b"
  shows "exponent a \<le> exponent b"
proof (rule ccontr)
  assume "\<not> exponent a \<le> exponent b"
  then have lt: "exponent b < exponent a" by simp
  then have "- 1022 < exponent a" "exponent b < 1023"
    using exponent_range [of a] exponent_range [of b] by linarith+
  then have "2 powi (exponent a) \<le> a" "b < 2 powi (exponent b + 1)"
    by (simp_all add: exponent_lower exponent_upper)
  moreover have "(2::real) powi (exponent b + 1) \<le> 2 powi (exponent a)"
    using lt by (intro power_int_increasing) simp_all
  ultimately show False using assms by linarith
qed

lemma exponent_eq:
  assumes "2 powi e \<le> a" "a < 2 powi (e + 1)" "- 1022 \<le> e" "e \<le> 1023"
  shows "exponent a = e"
proof (rule ccontr)
  assume ne: "exponent a \<noteq> e"
  show False
  proof (cases "exponent a < e")
    case True
    then have "a < 2 powi (exponent a + 1)" using assms(4) by (intro exponent_upper) simp
    moreover have "(2::real) powi (exponent a + 1) \<le> 2 powi e"
      using True by (intro power_int_increasing) simp_all
    ultimately show False using assms(1) by linarith
  next
    case False
    then have gt: "e < exponent a" using ne by simp
    then have "2 powi (exponent a) \<le> a" using assms(3) by (intro exponent_lower) simp
    moreover have "(2::real) powi (e + 1) \<le> 2 powi (exponent a)"
      using gt by (intro power_int_increasing) simp_all
    ultimately show False using assms(2) by linarith
  qed
qed

lemma exponent_small: "a < 2 powi (- 1021) \<Longrightarrow> exponent a = - 1022"
proof (rule ccontr)
  assume a: "a < 2 powi (- 1021)" and "exponent a \<noteq> - 1022"
  then have gt: "- 1022 < exponent a" using exponent_range(1) [of a] by linarith
  then have "2 powi (exponent a) \<le> a" by (rule exponent_lower)
  moreover have "(2::real) powi (- 1021) \<le> 2 powi (exponent a)"
    using gt by (intro power_int_increasing) simp_all
  ultimately show False using a by linarith
qed

lemma ulp_pos: "0 < ulp x"
  by (simp add: ulp_def)

lemma pow2_mult: "(2::real) powi a * 2 powi b = 2 powi (a + b)"
  by (rule power_int_add [symmetric]) simp

lemma pow2_div: "(2::real) powi a / 2 powi b = 2 powi (a - b)"
  by (rule power_int_diff [symmetric]) simp

lemma flr_zero [simp]: "flr 0 = 0"
  using round_even_of_int [of 0] by (simp add: flr_def)

lemma flr_nonneg: "0 \<le> x \<Longrightarrow> 0 \<le> flr x"
proof -
  assume "0 \<le> x"
  then have "of_int 0 \<le> x / ulp x" using ulp_pos [of x] by simp
  then have "0 \<le> round_even (x / ulp x)" by (rule round_even_ge)
  then show ?thesis using ulp_pos [of x] by (simp add: flr_def)
qed

lemma flr_mono_nonneg:
  assumes "0 \<le> x" "x \<le> y"
  shows "flr x \<le> flr y"
proof -
  have e: "exponent \<bar>x\<bar> \<le> exponent \<bar>y\<bar>" using assms by (intro exponent_mono) simp
  show ?thesis
  proof (cases "exponent \<bar>x\<bar> = exponent \<bar>y\<bar>")
    case True
    then have u: "ulp x = ulp y" by (simp add: ulp_def)
    have "x / ulp y \<le> y / ulp y" using assms ulp_pos [of y] by (simp add: divide_right_mono)
    then have "round_even (x / ulp y) \<le> round_even (y / ulp y)" by (rule round_even_mono)
    then show ?thesis using ulp_pos [of y] by (simp add: flr_def u)
  next
    case False
    then have lt: "exponent \<bar>x\<bar> < exponent \<bar>y\<bar>" using e by simp
    let ?ex = "exponent \<bar>x\<bar>" and ?ey = "exponent \<bar>y\<bar>"
    have ex: "?ex < 1023" and ey: "- 1022 < ?ey"
      using lt exponent_range [of "\<bar>x\<bar>"] exponent_range [of "\<bar>y\<bar>"] by linarith+
    have "\<bar>x\<bar> < 2 powi (?ex + 1)" using ex by (rule exponent_upper)
    then have "x / ulp x \<le> 2 powi (?ex + 1) / ulp x"
      using assms ulp_pos [of x] by (simp add: divide_right_mono)
    also have "2 powi (?ex + 1) / ulp x = (2::real) powi 53"
      unfolding ulp_def pow2_div by simp
    finally have "x / ulp x \<le> of_int (2 ^ 53)" by simp
    then have "round_even (x / ulp x) \<le> 2 ^ 53" by (rule round_even_le)
    then have "of_int (round_even (x / ulp x)) \<le> (2::real) powi 53"
      by (metis of_int_le_iff of_int_numeral of_int_power power_int_numeral)
    then have "flr x \<le> 2 powi 53 * ulp x"
      using ulp_pos [of x] by (simp add: flr_def mult_right_mono)
    also have "2 powi 53 * ulp x = 2 powi (?ex + 1)"
      unfolding ulp_def pow2_mult by (simp add: add.commute)
    also have "\<dots> \<le> 2 powi ?ey" using lt by (intro power_int_increasing) simp_all
    finally have upper: "flr x \<le> 2 powi ?ey" .
    have "2 powi ?ey \<le> \<bar>y\<bar>" using ey by (rule exponent_lower)
    then have "2 powi ?ey / ulp y \<le> y / ulp y"
      using assms ulp_pos [of y] by (simp add: divide_right_mono)
    moreover have "2 powi ?ey / ulp y = (2::real) powi 52"
      unfolding ulp_def pow2_div by simp
    ultimately have "of_int (2 ^ 52) \<le> y / ulp y" by simp
    then have "2 ^ 52 \<le> round_even (y / ulp y)" by (rule round_even_ge)
    then have "(2::real) powi 52 \<le> of_int (round_even (y / ulp y))"
      by (metis of_int_le_iff of_int_numeral of_int_power power_int_numeral)
    then have "2 powi 52 * ulp y \<le> flr y"
      using ulp_pos [of y] by (simp add: flr_def mult_right_mono)
    moreover have "2 powi 52 * ulp y = 2 powi ?ey"
      unfolding ulp_def pow2_mult by (simp add: add.commute)
    ultimately show ?thesis using upper by linarith
  qed
qed

lemma pow2_less_exp: "(2::real) powi a < 2 powi b \<Longrightarrow> a < b"
proof (rule ccontr)
  assume lt: "(2::real) powi a < 2 powi b" and "\<not> a < b"
  then have "(2::real) powi b \<le> 2 powi a" by (intro power_int_increasing) simp_all
  then show False using lt by linarith
qed

lemma flr_exact:
  assumes "x = of_int n * 2 powi k" "\<bar>n\<bar> < 2 ^ 53" "- 1074 \<le> k"
  shows "flr x = x"
proof (cases "n = 0")
  case True
  then show ?thesis using assms(1) by simp
next
  case False
  let ?e = "exponent \<bar>x\<bar>"
  have ax: "\<bar>x\<bar> = of_int \<bar>n\<bar> * 2 powi k" using assms(1) by (simp add: abs_mult)
  have "of_int \<bar>n\<bar> < (2::real) ^ 53" using assms(2)
    by (metis of_int_less_iff of_int_numeral of_int_power)
  then have "\<bar>x\<bar> < 2 ^ 53 * 2 powi k" unfolding ax by (intro mult_strict_right_mono) simp_all
  also have "(2::real) ^ 53 * 2 powi k = 2 powi (53 + k)"
    using pow2_mult [of 53 k] by simp
  finally have up: "\<bar>x\<bar> < 2 powi (53 + k)" .
  have le: "?e - 52 \<le> k"
  proof (cases "- 1022 < ?e")
    case True
    then have "2 powi ?e \<le> \<bar>x\<bar>" by (rule exponent_lower)
    then have "(2::real) powi ?e < 2 powi (53 + k)" using up by linarith
    then have "?e < 53 + k" by (rule pow2_less_exp)
    then show ?thesis by simp
  next
    case False
    then have "?e = - 1022" using exponent_range(1) [of "\<bar>x\<bar>"] by linarith
    then show ?thesis using assms(3) by simp
  qed
  define j where "j = nat (k - (?e - 52))"
  have j: "int j = k - (?e - 52)" using le by (simp add: j_def)
  have "x / ulp x = of_int n * (2 powi k / 2 powi (?e - 52))"
    by (simp add: assms(1) ulp_def)
  also have "2 powi k / 2 powi (?e - 52) = (2::real) powi (int j)"
    unfolding pow2_div j ..
  also have "(2::real) powi (int j) = of_int (2 ^ j)" by simp
  finally have q: "x / ulp x = of_int (n * 2 ^ j)" by simp
  have "flr x = of_int (n * 2 ^ j) * ulp x"
    unfolding flr_def q by (simp only: round_even_of_int)
  also have "\<dots> = x / ulp x * ulp x" unfolding q ..
  also have "\<dots> = x" using ulp_pos [of x] by simp
  finally show ?thesis .
qed

lemma flr_of_int: "\<bar>n\<bar> < 2 ^ 53 \<Longrightarrow> flr (of_int n) = of_int n"
  using flr_exact [of "of_int n" n 0] by simp

lemma flr_of_nat: "n < 2 ^ 53 \<Longrightarrow> flr (real n) = real n"
  using flr_of_int [of "int n"] by simp

lemma flr_eval:
  assumes "2 powi e \<le> \<bar>x\<bar>" "\<bar>x\<bar> < 2 powi (e + 1)" "- 1022 \<le> e" "e \<le> 1023"
  shows "flr x = of_int (round_even (x / 2 powi (e - 52))) * 2 powi (e - 52)"
  using exponent_eq [OF assms] by (simp add: flr_def ulp_def)

lemma flr_error:
  assumes "2 powi (- 1022) \<le> \<bar>x\<bar>"
  shows "\<bar>flr x - x\<bar> \<le> 2 powi (- 53) * \<bar>x\<bar>"
proof -
  let ?e = "exponent \<bar>x\<bar>"
  have lo: "2 powi ?e \<le> \<bar>x\<bar>"
  proof (cases "- 1022 < ?e")
    case True
    then show ?thesis by (rule exponent_lower)
  next
    case False
    then have "?e = - 1022" using exponent_range(1) [of "\<bar>x\<bar>"] by linarith
    then show ?thesis using assms by simp
  qed
  have "flr x - x = (of_int (round_even (x / ulp x)) - x / ulp x) * ulp x"
    using ulp_pos [of x] by (simp add: flr_def algebra_simps)
  then have "\<bar>flr x - x\<bar> = \<bar>of_int (round_even (x / ulp x)) - x / ulp x\<bar> * ulp x"
    using ulp_pos [of x] by (simp add: abs_mult)
  also have "\<dots> \<le> 1 / 2 * ulp x"
    using round_even_error [of "x / ulp x"] ulp_pos [of x] by (intro mult_right_mono) simp_all
  also have "1 / 2 * ulp x = 2 powi (- 53) * 2 powi ?e"
  proof -
    have "(1::real) / 2 = 2 powi (- 1)" by simp
    then have "1 / 2 * ulp x = 2 powi (- 1) * 2 powi (?e - 52)" by (simp add: ulp_def)
    also have "\<dots> = 2 powi (- 1 + (?e - 52))" by (rule pow2_mult)
    also have "- 1 + (?e - 52) = - 53 + ?e" by simp
    also have "(2::real) powi (- 53 + ?e) = 2 powi (- 53) * 2 powi ?e" by (rule pow2_mult [symmetric])
    finally show ?thesis .
  qed
  also have "\<dots> \<le> 2 powi (- 53) * \<bar>x\<bar>" using lo by (intro mult_left_mono) simp_all
  finally show ?thesis .
qed

lemma fl_Fin: "\<bar>flr x\<bar> < 2 powi 1024 \<Longrightarrow> fl x = Fin (flr x)"
  by (simp add: fl_def)



lemma flr_idem:
  assumes "\<bar>x\<bar> < 2 powi 1024"
  shows "flr (flr x) = flr x"
proof -
  let ?e = "exponent \<bar>x\<bar>"
  let ?m = "round_even (x / ulp x)"
  have up: "\<bar>x\<bar> < 2 powi (?e + 1)"
  proof (cases "?e < 1023")
    case True
    then show ?thesis by (rule exponent_upper)
  next
    case False
    then have "?e = 1023" using exponent_range(2) [of "\<bar>x\<bar>"] by linarith
    then show ?thesis using assms by simp
  qed
  have "\<bar>x\<bar> / ulp x < 2 powi (?e + 1) / ulp x"
    using up ulp_pos [of x] by (simp add: divide_strict_right_mono)
  also have "2 powi (?e + 1) / ulp x = (2::real) powi 53"
    unfolding ulp_def pow2_div by simp
  finally have b: "\<bar>x\<bar> / ulp x < 2 ^ 53" by simp
  have "x / ulp x \<le> \<bar>x\<bar> / ulp x"
    using ulp_pos [of x] by (simp add: divide_right_mono)
  moreover have "- \<bar>x\<bar> \<le> x" by simp
  then have "(- \<bar>x\<bar>) / ulp x \<le> x / ulp x"
    using ulp_pos [of x] by (intro divide_right_mono) simp_all
  then have "- (\<bar>x\<bar> / ulp x) \<le> x / ulp x" by simp
  ultimately have "x / ulp x \<le> of_int (2 ^ 53)" "of_int (- (2 ^ 53)) \<le> x / ulp x"
    using b by simp_all
  then have m: "?m \<le> 2 ^ 53" "- (2 ^ 53) \<le> ?m"
    by (simp_all only: round_even_le round_even_ge)
  have f: "flr x = of_int ?m * 2 powi (?e - 52)" by (simp add: flr_def ulp_def)
  have k: "- 1074 \<le> ?e - 52" using exponent_range(1) [of "\<bar>x\<bar>"] by simp
  consider "\<bar>?m\<bar> < 2 ^ 53" | "?m = 2 ^ 53" | "?m = - (2 ^ 53)" using m by linarith
  then show ?thesis
  proof cases
    case 1
    then show ?thesis using flr_exact [OF f _ k] by simp
  next
    case 2
    have "flr x = 2 powi 53 * 2 powi (?e - 52)" unfolding f 2 by simp
    also have "\<dots> = 2 powi (?e + 1)" unfolding pow2_mult by (simp add: add.commute)
    finally have "flr x = of_int 1 * 2 powi (?e + 1)" by simp
    then show ?thesis using k by (intro flr_exact [of _ 1 "?e + 1"]) simp_all
  next
    case 3
    have "flr x = - (2 powi 53 * 2 powi (?e - 52))" unfolding f 3 by simp
    also have "\<dots> = - (2 powi (?e + 1))" unfolding pow2_mult by (simp add: add.commute)
    finally have "flr x = of_int (- 1) * 2 powi (?e + 1)" by simp
    then show ?thesis using k by (intro flr_exact [of _ "- 1" "?e + 1"]) simp_all
  qed
qed

lemma pow2_1024_gt: "(2::real) ^ 53 < 2 powi 1024"
  by simp

lemma fl_of_int: "\<bar>n\<bar> < 2 ^ 53 \<Longrightarrow> fl (of_int n) = Fin (of_int n)"
proof -
  assume a: "\<bar>n\<bar> < 2 ^ 53"
  then have f: "flr (of_int n) = of_int n" by (rule flr_of_int)
  have "\<bar>real_of_int n\<bar> < 2 ^ 53" using a
    by (metis of_int_abs of_int_less_iff of_int_numeral of_int_power)
  then have "\<bar>real_of_int n\<bar> < 2 powi 1024" using pow2_1024_gt by linarith
  then show ?thesis by (simp add: fl_def f)
qed

lemma fl_of_nat: "n < 2 ^ 53 \<Longrightarrow> fl (real n) = Fin (real n)"
  using fl_of_int [of "int n"] by simp

lemma fl_zero [simp]: "fl 0 = Fin 0"
  using fl_of_int [of 0] by simp

lemma fl_one [simp]: "fl 1 = Fin 1"
  using fl_of_int [of 1] by simp

lemma fl_numeral [simp]: "numeral n < (2::int) ^ 53 \<Longrightarrow> fl (numeral n) = Fin (numeral n)"
  using fl_of_int [of "numeral n"] by simp

lemma fl_neg_numeral [simp]:
  "numeral n < (2::int) ^ 53 \<Longrightarrow> fl (- numeral n) = Fin (- numeral n)"
  using fl_of_int [of "- numeral n"] by simp

lemma fl_exact:
  assumes "x = of_int n * 2 powi k" "\<bar>n\<bar> < 2 ^ 53" "- 1074 \<le> k" "k \<le> 970"
  shows "fl x = Fin x"
proof -
  have f: "flr x = x" using assms(1-3) by (rule flr_exact)
  have "\<bar>real_of_int n\<bar> < 2 ^ 53" using assms(2)
    by (metis of_int_abs of_int_less_iff of_int_numeral of_int_power)
  then have "\<bar>x\<bar> < 2 ^ 53 * 2 powi k"
    unfolding assms(1) abs_mult by (simp add: mult_strict_right_mono)
  also have "(2::real) ^ 53 * 2 powi k = 2 powi (53 + k)" using pow2_mult [of 53 k] by simp
  also have "\<dots> \<le> 2 powi 1024" using assms(4) by (intro power_int_increasing) simp_all
  finally show ?thesis by (simp add: fl_def f)
qed

lemma fl_eval:
  assumes "2 powi e \<le> \<bar>x\<bar>" "\<bar>x\<bar> < 2 powi (e + 1)" "- 1022 \<le> e" "e \<le> 1022"
  shows "fl x = Fin (of_int (round_even (x / 2 powi (e - 52))) * 2 powi (e - 52))"
proof -
  have e: "exponent \<bar>x\<bar> = e" using assms by (intro exponent_eq) simp_all
  have i: "flr (flr x) = flr x"
  proof (rule flr_idem)
    have "(2::real) powi (e + 1) \<le> 2 powi 1024" using assms(4) by (intro power_int_increasing) simp_all
    then show "\<bar>x\<bar> < 2 powi 1024" using assms(2) by linarith
  qed
  have "\<bar>x\<bar> \<le> 2 powi (e + 1)" using assms(2) by simp
  moreover have "flr (2 powi (e + 1)) = 2 powi (e + 1)"
    using assms(3) by (intro flr_exact [of _ 1 "e + 1"]) simp_all
  ultimately have "flr \<bar>x\<bar> \<le> 2 powi (e + 1)"
    using flr_mono_nonneg [of "\<bar>x\<bar>" "2 powi (e + 1)"] by simp
  moreover have "\<bar>flr x\<bar> = flr \<bar>x\<bar>"
  proof (cases "0 \<le> x")
    case True
    then show ?thesis using flr_nonneg [of x] by simp
  next
    case False
    have u: "ulp (- x) = ulp x" by (simp add: ulp_def)
    have r: "round_even (- r) = - round_even r" for r
    proof -
      have "\<lfloor>- r\<rfloor> = - \<lceil>r\<rceil>" by (simp add: ceiling_def)
      show ?thesis
      proof (cases "of_int \<lfloor>r\<rfloor> = r")
        case True
        then obtain m where "r = of_int m" by metis
        then show ?thesis using round_even_of_int [of "- m"] by simp
      next
        case False
        then have c: "\<lceil>r\<rceil> = \<lfloor>r\<rfloor> + 1" by (simp add: ceiling_altdef)
        have "of_int \<lfloor>r\<rfloor> < r" using False by linarith
        then show ?thesis
          using \<open>\<lfloor>- r\<rfloor> = - \<lceil>r\<rceil>\<close> c
          by (auto simp add: round_even_def Let_def)
      qed
    qed
    have "flr (- x) = - flr x" using r [of "x / ulp x"] by (simp add: flr_def u)
    moreover have "0 \<le> flr (- x)" using False by (intro flr_nonneg) simp
    ultimately show ?thesis using False by simp
  qed
  moreover have "(2::real) powi (e + 1) < 2 powi 1024"
    using assms(4) by (intro power_int_strict_increasing) simp_all
  ultimately have "\<bar>flr x\<bar> < 2 powi 1024" by linarith
  then show ?thesis using flr_eval [OF assms(1-3)] assms(4) by (simp add: fl_def)
qed

section \<open>Frame selection\<close>





lemma length_minus_one:
  assumes "length fs \<le> 2 ^ 32"
  shows "js_sub (Fin (real (length fs))) (Fin 1) = Fin (real (length fs) - 1)"
proof -
  have "\<bar>int (length fs) - 1\<bar> < 2 ^ 53" using assms by simp
  then have "fl (of_int (int (length fs) - 1)) = Fin (of_int (int (length fs) - 1))"
    by (rule fl_of_int)
  then show ?thesis by simp
qed







section \<open>Draw requests without a frame\<close>

lemma round_even_minus: "round_even (- r) = - round_even r"
proof (cases "of_int \<lfloor>r\<rfloor> = r")
  case True
  then obtain m where "r = of_int m" by metis
  then show ?thesis using round_even_of_int [of "- m"] by simp
next
  case False
  then have c: "\<lceil>r\<rceil> = \<lfloor>r\<rfloor> + 1" by (simp add: ceiling_altdef)
  have f: "\<lfloor>- r\<rfloor> = - \<lceil>r\<rceil>" by (simp add: ceiling_def)
  have "of_int \<lfloor>r\<rfloor> < r" using False by linarith
  then show ?thesis using f c by (auto simp add: round_even_def Let_def)
qed

lemma flr_minus: "flr (- x) = - flr x"
proof -
  have "ulp (- x) = ulp x" by (simp add: ulp_def)
  then show ?thesis using round_even_minus [of "x / ulp x"] by (simp add: flr_def)
qed

lemma flr_mono:
  assumes "x \<le> y"
  shows "flr x \<le> flr y"
proof (cases "0 \<le> x")
  case True
  then show ?thesis using assms by (rule flr_mono_nonneg)
next
  case False
  show ?thesis
  proof (cases "0 \<le> y")
    case True
    have "0 \<le> flr (- x)" using False by (intro flr_nonneg) simp
    then have "flr x \<le> 0" by (simp add: flr_minus)
    then show ?thesis using flr_nonneg [OF True] by linarith
  next
    case False
    then have "flr (- y) \<le> flr (- x)" using assms by (intro flr_mono_nonneg) simp_all
    then show ?thesis by (simp add: flr_minus)
  qed
qed

lemma flr_pos:
  assumes "2 powi (- 1074) \<le> x"
  shows "0 < flr x"
proof -
  have "flr (2 powi (- 1074)) = 2 powi (- 1074)"
    by (rule flr_exact [of _ 1 "- 1074"]) simp_all
  then have "2 powi (- 1074) \<le> flr x" using flr_mono [OF assms] by simp
  moreover have "(0::real) < 2 powi (- 1074)" by simp
  ultimately show ?thesis by linarith
qed

lemma flr_neg: "x \<le> - (2 powi (- 1074)) \<Longrightarrow> flr x < 0"
  using flr_pos [of "- x"] by (simp add: flr_minus)

lemma double_flr: "double x \<Longrightarrow> flr x = x"
  by (simp add: double_def fl_def split: if_splits)

lemma ulp_ge: "2 powi (- 1074) \<le> ulp x"
  unfolding ulp_def using exponent_range(1) [of "\<bar>x\<bar>"]
  by (intro power_int_increasing) simp_all

lemma double_neg:
  assumes "double r" "r < 0"
  shows "r \<le> - (2 powi (- 1074))"
proof -
  have r: "r = of_int (round_even (r / ulp r)) * ulp r"
    using double_flr [OF assms(1)] by (simp add: flr_def)
  have "round_even (r / ulp r) < 0"
  proof (rule ccontr)
    assume "\<not> round_even (r / ulp r) < 0"
    then have "0 \<le> of_int (round_even (r / ulp r)) * ulp r" using ulp_pos [of r] by simp
    then show False using r assms(2) by linarith
  qed
  then have "round_even (r / ulp r) \<le> - 1" by simp
  then have "real_of_int (round_even (r / ulp r)) \<le> - 1" by linarith
  then have "of_int (round_even (r / ulp r)) * ulp r \<le> - 1 * ulp r"
    using ulp_pos [of r] by (intro mult_right_mono) simp_all
  then have "r \<le> - ulp r" using r by simp
  then show ?thesis using ulp_ge [of r] by linarith
qed

lemma js_index_Nil: "js_index [] x = None"
  by (cases x) simp_all

lemma selectedFrame_Nil: "selectedFrame k [] = None"
  by (simp add: selectedFrame_def js_index_Nil)

lemma scrollRatio_flat:
  "scrollTop k = 0 \<Longrightarrow> scrollHeight k = clientHeight k \<Longrightarrow> scrollRatio k = NaN"
  by (simp add: scrollRatio_def)

lemma selectedFrame_NaN: "scrollRatio k = NaN \<Longrightarrow> selectedFrame k fs = None"
  by (simp add: selectedFrame_def scrollPercent_def frameIndex_def)

lemma handleScroll_no_frame:
  "containerRef s = Some k \<Longrightarrow> selectedFrame k (frames s) = None \<Longrightarrow> handleScroll s = s"
  by (simp add: handleScroll_def split: option.splits)

lemma kit_D_no_frame:
  "js_index (kit_S t) (kit_index p (kit_S t)) = None \<Longrightarrow> kit_D p t = t"
  by (simp add: kit_D_def)

lemma js_index_above:
  assumes "real (length fs) - 1 < a"
  shows "js_index fs (Fin a) = None"
proof -
  have "\<not> nat \<lfloor>a\<rfloor> < length fs" if e: "of_int \<lfloor>a\<rfloor> = a"
  proof -
    have "real (length fs) - 1 < of_int \<lfloor>a\<rfloor>" using assms e by linarith
    then have "int (length fs) - 1 < \<lfloor>a\<rfloor>" by linarith
    then show ?thesis by linarith
  qed
  then show ?thesis by auto
qed

lemma js_index_floor_neg: "a < 0 \<Longrightarrow> js_index fs (Math_floor (Fin a)) = None"
proof -
  assume "a < 0"
  then have "\<lfloor>a\<rfloor> < 0" by linarith
  then have "real_of_int \<lfloor>a\<rfloor> < 0" by linarith
  then show ?thesis by simp
qed

lemma js_index_floor_above:
  assumes "real (length fs) \<le> a"
  shows "js_index fs (Math_floor (Fin a)) = None"
proof -
  have "int (length fs) \<le> \<lfloor>a\<rfloor>" using assms by (simp add: le_floor_iff)
  then have "real (length fs) - 1 < of_int \<lfloor>a\<rfloor>" by linarith
  then have "js_index fs (Fin (of_int \<lfloor>a\<rfloor>)) = None" by (rule js_index_above)
  then show ?thesis by simp
qed

lemma kit_index_Nil: "js_index [] (kit_index p []) = None"
  by (rule js_index_Nil)

lemma kit_index_NaN: "js_index fs (kit_index NaN fs) = None"
  by (simp add: kit_index_def)

lemma fl_cases:
  "fl x = Fin (flr x) \<or> (fl x = PInf \<and> 0 < x) \<or> (fl x = NInf \<and> x \<le> 0)"
  by (auto simp add: fl_def)

lemma kit_index_below:
  assumes "double r" "r < 0" "2 \<le> length fs"
  shows "js_index fs (kit_index (Fin r) fs) = None"
proof -
  let ?m = "real (length fs) - 1"
  have m1: "1 \<le> ?m" using assms(3) by simp
  have "flr 1 = 1" using flr_of_int [of 1] by simp
  then have fm: "1 \<le> flr ?m" using flr_mono [OF m1] by simp
  consider "fl ?m = Fin (flr ?m)" | "fl ?m = PInf" using fl_cases [of ?m] m1 by force
  then show ?thesis
  proof cases
    case 1
    have "r * flr ?m \<le> r * 1" using assms(2) fm by (intro mult_left_mono_neg) simp_all
    then have "r * flr ?m \<le> r" by (simp only: mult_1_right)
    then have x: "r * flr ?m \<le> - (2 powi (- 1074))"
      using double_neg [OF assms(1,2)] by (rule order_trans)
    then have neg: "flr (r * flr ?m) < 0" by (rule flr_neg)
    have "(0::real) < 2 powi (- 1074)" by simp
    then have xn: "r * flr ?m \<le> 0" using x by linarith
    consider "fl (r * flr ?m) = Fin (flr (r * flr ?m))" | "fl (r * flr ?m) = NInf"
      using fl_cases [of "r * flr ?m"] xn by force
    then show ?thesis
    proof cases
      case 1
      then show ?thesis
        using js_index_floor_neg [OF neg, of fs] \<open>fl ?m = Fin (flr ?m)\<close>
        by (simp add: kit_index_def)
    next
      case 2
      then show ?thesis using \<open>fl ?m = Fin (flr ?m)\<close> by (simp add: kit_index_def)
    qed
  next
    case 2
    then show ?thesis using assms(2) by (simp add: kit_index_def)
  qed
qed

lemma kit_index_above:
  assumes "length fs \<le> 2 ^ 32" "real (length fs) \<le> r * (real (length fs) - 1)"
  shows "js_index fs (kit_index (Fin r) fs) = None"
proof -
  let ?x = "r * (real (length fs) - 1)"
  have k: "kit_index (Fin r) fs = Math_floor (fl ?x)"
    unfolding kit_index_def length_minus_one [OF assms(1)] by simp
  have x0: "0 \<le> ?x" using assms(2) by (meson of_nat_0_le_iff order_trans)
  have "length fs < 2 ^ 53" using assms(1) by (simp add: order_le_less_trans)
  then have "flr (real (length fs)) = real (length fs)" by (rule flr_of_nat)
  then have ge: "real (length fs) \<le> flr ?x" using flr_mono [OF assms(2)] by simp
  consider "fl ?x = Fin (flr ?x)" | "fl ?x = PInf" | "fl ?x = NInf \<and> ?x \<le> 0"
    using fl_cases [of ?x] by blast
  then show ?thesis
  proof cases
    case 1
    then show ?thesis using js_index_floor_above [OF ge] by (simp add: k)
  next
    case 2
    then show ?thesis by (simp add: k)
  next
    case 3
    then show ?thesis by (simp add: k)
  qed
qed

text \<open>
  Claim C10. A draw request whose frame lookup yields no bitmap changes nothing: in the
  preview \<open>handleScroll\<close> returns the state as it was (no \<open>clearRect\<close>, no
  \<open>drawImage\<close>), and so does \<open>D\<close> in the exported kit. The lookup yields no bitmap
  for an empty frame array, for the scroll ratio \<open>0/0\<close> (scroll range zero), and in the
  kit, which does not clamp, for a fraction whose index falls below 0 or beyond the last
  frame. A fraction is a binary64 number and an array holds at most \<open>2^32\<close> elements.
\<close>

theorem draw_without_frame_is_noop:
  "(containerRef s = Some k \<and> selectedFrame k (frames s) = None \<longrightarrow> handleScroll s = s)
   \<and> (js_index (kit_S t) (kit_index p (kit_S t)) = None \<longrightarrow> kit_D p t = t)
   \<and> selectedFrame k [] = None
   \<and> js_index [] (kit_index p []) = None
   \<and> (scrollTop k = 0 \<and> scrollHeight k = clientHeight k \<longrightarrow>
        scrollRatio k = NaN \<and> selectedFrame k fs = None)
   \<and> js_index fs (kit_index NaN fs) = None
   \<and> (double r \<and> r < 0 \<and> 2 \<le> length fs \<longrightarrow> js_index fs (kit_index (Fin r) fs) = None)
   \<and> (length fs \<le> 2 ^ 32 \<and> real (length fs) \<le> r * (real (length fs) - 1) \<longrightarrow>
        js_index fs (kit_index (Fin r) fs) = None)"
  using handleScroll_no_frame [of s k] kit_D_no_frame [of t p] selectedFrame_Nil [of k]
    kit_index_Nil [of p] scrollRatio_flat [of k] selectedFrame_NaN [of k fs]
    kit_index_NaN [of fs] kit_index_above [of fs r] kit_index_below [of r fs]
  by blast

theorem draw_without_frame_is_noop_witness:
  "containerRef (ready0\<lparr>containerRef := Some container_flat\<rparr>) = Some container_flat
   \<and> scrollTop container_flat = 0 \<and> scrollHeight container_flat = clientHeight container_flat
   \<and> selectedFrame container_flat (frames (ready0\<lparr>containerRef := Some container_flat\<rparr>)) = None
   \<and> handleScroll (ready0\<lparr>containerRef := Some container_flat\<rparr>)
       = ready0\<lparr>containerRef := Some container_flat\<rparr>
   \<and> js_index (kit_S (kit_start canvas0 1600 900))
         (kit_index (Fin (1 / 2)) (kit_S (kit_start canvas0 1600 900))) = None
   \<and> kit_D (Fin (1 / 2)) (kit_start canvas0 1600 900) = kit_start canvas0 1600 900
   \<and> length (frames ready0) \<le> 2 ^ 32
   \<and> real (length (frames ready0)) \<le> 3 / 2 * (real (length (frames ready0)) - 1)
   \<and> js_index (frames ready0) (kit_index (Fin (3 / 2)) (frames ready0)) = None
   \<and> double (- (1 / 2)) \<and> 2 \<le> length (frames ready0)
   \<and> js_index (frames ready0) (kit_index (Fin (- (1 / 2))) (frames ready0)) = None"
proof -
  let ?s = "ready0\<lparr>containerRef := Some container_flat\<rparr>"
  have h1: "containerRef ?s = Some container_flat" by simp
  have h2: "scrollTop container_flat = 0" "scrollHeight container_flat = clientHeight container_flat"
    by (simp_all add: container_flat_def)
  have h3: "length (frames ready0) \<le> 2 ^ 32"
    "real (length (frames ready0)) \<le> 3 / 2 * (real (length (frames ready0)) - 1)"
    by (simp_all add: ready0_def)
  have h4: "frames ?s = frames ready0" by simp
  have h5: "kit_S (kit_start canvas0 1600 900) = []" by (simp add: kit_start_def)
  have h6: "double (- (1 / 2))" "(- (1 / 2) :: real) < 0" "2 \<le> length (frames ready0)"
    using fl_exact [of "- (1 / 2)" "- 1" "- 1"] by (simp_all add: double_def ready0_def)
  have n: "js_index (frames ready0) (kit_index (Fin (- (1 / 2))) (frames ready0)) = None"
    using draw_without_frame_is_noop [of ?s container_flat "kit_start canvas0 1600 900"
        "Fin (1 / 2)" "frames ready0" "- (1 / 2)"] h6
    by blast
  have m: "containerRef ?s = Some container_flat
   \<and> scrollTop container_flat = 0 \<and> scrollHeight container_flat = clientHeight container_flat
   \<and> selectedFrame container_flat (frames ?s) = None
   \<and> handleScroll ?s = ?s
   \<and> js_index (kit_S (kit_start canvas0 1600 900))
         (kit_index (Fin (1 / 2)) (kit_S (kit_start canvas0 1600 900))) = None
   \<and> kit_D (Fin (1 / 2)) (kit_start canvas0 1600 900) = kit_start canvas0 1600 900
   \<and> length (frames ready0) \<le> 2 ^ 32
   \<and> real (length (frames ready0)) \<le> 3 / 2 * (real (length (frames ready0)) - 1)
   \<and> js_index (frames ready0) (kit_index (Fin (3 / 2)) (frames ready0)) = None"
    using draw_without_frame_is_noop [of ?s container_flat "kit_start canvas0 1600 900"
        "Fin (1 / 2)" "frames ready0" "3 / 2"] h1 h2 h3 h4 h5
    by auto
  show ?thesis using m n h6(1,3) by blast
qed

section \<open>Resize\<close>




lemma fl_4_3: "fl (4 / 3) = Fin (6004799503160661 / 2 ^ 52)"
  by (simp add: fl_eval [of 0] round_even_def Let_def)

lemma fl_16_9: "fl (1600 / 900) = Fin (2001599834386887 / 2 ^ 50)"
  by (simp add: fl_eval [of 0] round_even_def Let_def)

lemma fl_1600_by: "fl (1600 / (6004799503160661 / 2 ^ 52)) = Fin 1200"
  by (simp add: fl_eval [of 10] round_even_def Let_def)

lemma coverFit_4_3_1600_900:
  "coverFit 4 3 1600 900 =
     \<lparr>offsetX = Fin 0, offsetY = Fin (- 150), drawWidth = Fin 1600, drawHeight = Fin 1200\<rparr>"
  using fl_4_3 fl_16_9 fl_1600_by by (simp add: coverFit_def Let_def)




section \<open>Cover fit\<close>

lemma tol_mul:
  fixes u q a w m :: real
  assumes u: "0 \<le> u" "u \<le> 1" and q: "0 \<le> q" and a: "\<bar>a - q\<bar> \<le> u * q" and m: "0 < m"
    and w: "\<bar>w - m * a\<bar> \<le> u * (m * a)"
  shows "\<bar>w / m - q\<bar> \<le> 4 * u * q"
proof -
  have a1: "a \<le> q * (1 + u)" and a2: "q * (1 - u) \<le> a"
    using a by (simp_all add: abs_le_iff algebra_simps)
  have a0: "0 \<le> a" using a2 q u by (meson mult_nonneg_nonneg diff_ge_0_iff_ge order_trans)
  have "w \<le> a * (1 + u) * m" "a * (1 - u) * m \<le> w"
    using w by (simp_all add: abs_le_iff algebra_simps)
  then have w1: "w / m \<le> a * (1 + u)" and w2: "a * (1 - u) \<le> w / m"
    using m by (simp_all add: pos_divide_le_eq pos_le_divide_eq)
  have "a * (1 + u) \<le> q * (1 + u) * (1 + u)" using a1 u by (intro mult_right_mono) simp_all
  also have "\<dots> = q * (1 + 2 * u + u * u)" by (simp add: algebra_simps)
  also have "\<dots> \<le> q * (1 + 2 * u + u * 1)"
    using u q by (intro mult_left_mono add_left_mono) simp_all
  also have "q * (1 + 2 * u + u * 1) = q * (1 + 3 * u)" by simp
  finally have "a * (1 + u) \<le> q * (1 + 3 * u)" .
  then have up: "w / m \<le> q * (1 + 3 * u)" using w1 by linarith
  have "q * (1 - u) * (1 - u) \<le> a * (1 - u)" using a2 u by (intro mult_right_mono) simp_all
  moreover have "q * (1 - 2 * u) \<le> q * (1 - u) * (1 - u)"
  proof -
    have "q * (1 - u) * (1 - u) = q * (1 - 2 * u) + q * (u * u)" by (simp add: algebra_simps)
    moreover have "0 \<le> q * (u * u)" using q u by simp
    ultimately show ?thesis by linarith
  qed
  ultimately have lo: "q * (1 - 2 * u) \<le> w / m" using w2 by linarith
  have "0 \<le> u * q" using u q by simp
  then show ?thesis using up lo by (simp add: abs_le_iff algebra_simps)
qed

lemma tol_div:
  fixes u q a h n :: real
  assumes u: "0 \<le> u" "u \<le> 1 / 2" and q: "0 < q" and a: "\<bar>a - q\<bar> \<le> u * q" and n: "0 < n"
    and h: "\<bar>h - n / a\<bar> \<le> u * (n / a)"
  shows "\<bar>n / h - q\<bar> \<le> 4 * u * q"
proof -
  have a1: "a \<le> q * (1 + u)" and a2: "q * (1 - u) \<le> a"
    using a by (simp_all add: abs_le_iff algebra_simps)
  have "0 < q * (1 - u)" using q u by simp
  then have a0: "0 < a" using a2 by linarith
  have x0: "0 < n / a" using n a0 by simp
  define x where "x = n / a"
  have "\<bar>h - x\<bar> \<le> u * x" using h by (simp add: x_def)
  then have "h \<le> x * (1 + u)" "x * (1 - u) \<le> h"
    by (simp_all add: abs_le_iff algebra_simps)
  then have h1: "h \<le> n / a * (1 + u)" and h2: "n / a * (1 - u) \<le> h"
    by (simp_all add: x_def)
  have "0 < n / a * (1 - u)" using x0 u by (intro mult_pos_pos) simp_all
  then have h0: "0 < h" using h2 by linarith
  define y where "y = n / a * (1 - u)"
  define z where "z = n / a * (1 + u)"
  have y0: "0 < y" using \<open>0 < n / a * (1 - u)\<close> by (simp add: y_def)
  have z0: "0 < z" unfolding z_def using x0 u by (intro mult_pos_pos) simp_all
  have yh: "y \<le> h" and hz: "h \<le> z" using h1 h2 by (simp_all add: y_def z_def)
  have up: "n / h \<le> a / (1 - u)"
  proof -
    have "0 < h * y" using h0 y0 by (rule mult_pos_pos)
    then have "n / h \<le> n / y" using yh n by (intro divide_left_mono) simp_all
    also have "n / y = a / (1 - u)" using n a0 by (simp add: y_def)
    finally show ?thesis .
  qed
  have lo: "a / (1 + u) \<le> n / h"
  proof -
    have "0 < z * h" using z0 h0 by (rule mult_pos_pos)
    then have "n / z \<le> n / h" using hz n by (intro divide_left_mono) simp_all
    moreover have "n / z = a / (1 + u)" using n a0 by (simp add: z_def)
    ultimately show ?thesis by simp
  qed
  have "a / (1 - u) \<le> q * (1 + u) / (1 - u)" using a1 u by (intro divide_right_mono) simp_all
  moreover have "q * (1 + u) / (1 - u) \<le> q * (1 + 4 * u)"
  proof -
    have "(1 + u) \<le> (1 + 4 * u) * (1 - u)"
    proof -
      have "(1 + 4 * u) * (1 - u) - (1 + u) = 2 * u * (1 - 2 * u)" by (simp add: algebra_simps)
      moreover have "0 \<le> 2 * u * (1 - 2 * u)" using u by simp
      ultimately show ?thesis by linarith
    qed
    then have "(1 + u) / (1 - u) \<le> 1 + 4 * u" using u by (simp add: pos_divide_le_eq)
    then have "q * ((1 + u) / (1 - u)) \<le> q * (1 + 4 * u)" using q by (intro mult_left_mono) simp_all
    then show ?thesis by simp
  qed
  ultimately have U: "n / h \<le> q * (1 + 4 * u)" using up by linarith
  have "q * (1 - u) / (1 + u) \<le> a / (1 + u)" using a2 u by (intro divide_right_mono) simp_all
  moreover have "q * (1 - 4 * u) \<le> q * (1 - u) / (1 + u)"
  proof -
    have "(1 - 4 * u) * (1 + u) \<le> 1 - u"
    proof -
      have "(1 - u) - (1 - 4 * u) * (1 + u) = 2 * u + 4 * (u * u)" by (simp add: algebra_simps)
      moreover have "0 \<le> 2 * u + 4 * (u * u)" using u by simp
      ultimately show ?thesis by linarith
    qed
    then have "1 - 4 * u \<le> (1 - u) / (1 + u)" using u by (simp add: pos_le_divide_eq)
    then have "q * (1 - 4 * u) \<le> q * ((1 - u) / (1 + u))" using q by (intro mult_left_mono) simp_all
    then show ?thesis by simp
  qed
  ultimately have L: "q * (1 - 4 * u) \<le> n / h" using lo by linarith
  show ?thesis using U L by (simp add: abs_le_iff algebra_simps)
qed

lemma flr_pow2: "- 1074 \<le> k \<Longrightarrow> flr (2 powi k) = 2 powi k"
  by (rule flr_exact [of _ 1 k]) simp_all

lemma aspect_bounds:
  assumes "0 < a" "a < 2 ^ 32" "0 < b" "b < 2 ^ 32"
  shows "2 powi (- 32) \<le> real a / real b" "real a / real b \<le> 2 powi 32"
proof -
  have b: "real b \<le> 2 ^ 32" "0 < real b" using assms by simp_all
  have a: "1 \<le> real a" "real a \<le> 2 ^ 32" using assms by simp_all
  have "1 / 2 ^ 32 \<le> 1 / real b" using b by (intro divide_left_mono) simp_all
  also have "1 / real b \<le> real a / real b" using a b by (intro divide_right_mono) simp_all
  finally show "2 powi (- 32) \<le> real a / real b" by (simp add: power_int_minus_divide)
  have "real a / real b \<le> real a / 1" using b assms(3) by (intro divide_left_mono) simp_all
  then show "real a / real b \<le> 2 powi 32" using a by simp
qed

lemma aspect_fl:
  assumes "0 < a" "a < 2 ^ 32" "0 < b" "b < 2 ^ 32"
  shows "fl (real a / real b) = Fin (flr (real a / real b))"
    and "2 powi (- 32) \<le> flr (real a / real b)"
    and "flr (real a / real b) \<le> 2 powi 32"
    and "\<bar>flr (real a / real b) - real a / real b\<bar> \<le> 2 powi (- 53) * (real a / real b)"
    and "flr (flr (real a / real b)) = flr (real a / real b)"
proof -
  let ?q = "real a / real b"
  note qb = aspect_bounds [OF assms]
  have q0: "0 \<le> ?q" by simp
  have p1: "flr (2 powi (- 32)) = 2 powi (- 32)" by (rule flr_pow2) simp
  have p2: "flr (2 powi 32) = 2 powi 32" by (rule flr_pow2) simp
  show lo: "2 powi (- 32) \<le> flr ?q" using flr_mono [OF qb(1)] by (simp only: p1)
  show hi: "flr ?q \<le> 2 powi 32" using flr_mono [OF qb(2)] by (simp only: p2)
  have "(2::real) powi 32 < 2 powi 1024" by (intro power_int_strict_increasing) simp_all
  then show "fl ?q = Fin (flr ?q)" using hi flr_nonneg [OF q0] by (intro fl_Fin) simp
  have "(2::real) powi (- 1022) \<le> 2 powi (- 32)" by (intro power_int_increasing) simp_all
  then have "2 powi (- 1022) \<le> ?q" using qb(1) by (rule order_trans)
  then have "2 powi (- 1022) \<le> \<bar>?q\<bar>" by (simp only: abs_of_nonneg [OF q0])
  then have "\<bar>flr ?q - ?q\<bar> \<le> 2 powi (- 53) * \<bar>?q\<bar>" by (rule flr_error)
  then show "\<bar>flr ?q - ?q\<bar> \<le> 2 powi (- 53) * ?q" by (simp only: abs_of_nonneg [OF q0])
  have "?q < 2 powi 1024" using qb(2) \<open>(2::real) powi 32 < 2 powi 1024\<close> by (rule order_le_less_trans)
  then have "\<bar>?q\<bar> < 2 powi 1024" by (simp only: abs_of_nonneg [OF q0])
  then show "flr (flr ?q) = flr ?q" by (rule flr_idem)
qed

lemma fl_product:
  assumes "2 powi (- 70) \<le> x" "x \<le> 2 powi 70"
  shows "fl x = Fin (flr x)" "\<bar>flr x - x\<bar> \<le> 2 powi (- 53) * x" "0 < flr x"
proof -
  have x0: "0 < x" using assms(1) by (smt (verit) zero_less_power_int)
  have p: "flr (2 powi 70) = 2 powi 70" by (rule flr_pow2) simp
  have "flr x \<le> 2 powi 70" using flr_mono [OF assms(2)] by (simp only: p)
  moreover have "(2::real) powi 70 < 2 powi 1024" by (intro power_int_strict_increasing) simp_all
  moreover have "0 \<le> flr x" using x0 by (intro flr_nonneg) simp
  ultimately show "fl x = Fin (flr x)" by (intro fl_Fin) simp
  have "(2::real) powi (- 1022) \<le> 2 powi (- 70)" by (intro power_int_increasing) simp_all
  then have "2 powi (- 1022) \<le> x" using assms(1) by (rule order_trans)
  then have "2 powi (- 1022) \<le> \<bar>x\<bar>" by (simp only: abs_of_pos [OF x0])
  then have "\<bar>flr x - x\<bar> \<le> 2 powi (- 53) * \<bar>x\<bar>" by (rule flr_error)
  then show "\<bar>flr x - x\<bar> \<le> 2 powi (- 53) * x" by (simp only: abs_of_pos [OF x0])
  have "(2::real) powi (- 1074) \<le> 2 powi (- 70)" by (intro power_int_increasing) simp_all
  then have "2 powi (- 1074) \<le> x" using assms(1) by (rule order_trans)
  then show "0 < flr x" by (rule flr_pos)
qed

lemma cover_lower:
  fixes u cw ch a C w :: real
  assumes "0 \<le> u" "u \<le> 1" "0 < cw" "0 < ch"
    and "\<bar>C - cw / ch\<bar> \<le> u * (cw / ch)" "C \<le> a" "\<bar>w - ch * a\<bar> \<le> u * (ch * a)"
  shows "cw * (1 - 2 * u) \<le> w"
proof -
  define q where "q = cw / ch"
  have "\<bar>C - q\<bar> \<le> u * q" using assms(5) by (simp only: q_def)
  then have "q * (1 - u) \<le> C" by (simp add: algebra_simps abs_le_iff)
  then have "cw / ch * (1 - u) \<le> a" using assms(6) unfolding q_def by linarith
  then have "ch * (cw / ch * (1 - u)) \<le> ch * a" using assms(4) by (intro mult_left_mono) simp_all
  then have 1: "cw * (1 - u) \<le> ch * a" using assms(4) by simp
  define x where "x = ch * a"
  have "\<bar>w - x\<bar> \<le> u * x" using assms(7) by (simp only: x_def)
  then have "x * (1 - u) \<le> w" by (simp add: algebra_simps abs_le_iff)
  then have 2: "ch * a * (1 - u) \<le> w" by (simp only: x_def)
  have "cw * (1 - u) * (1 - u) \<le> ch * a * (1 - u)"
    using 1 assms(2) by (intro mult_right_mono) simp_all
  moreover have "cw * (1 - 2 * u) \<le> cw * ((1 - u) * (1 - u))"
    using assms(3) by (intro mult_left_mono) (simp_all add: algebra_simps)
  ultimately show ?thesis using 2 by (simp add: mult.assoc)
qed

lemma branch_margin:
  fixes u qf qc a C :: real
  assumes "0 < u" "u \<le> 1 / 4" "0 < qf"
    and "\<bar>a - qf\<bar> \<le> u * qf" "\<bar>C - qc\<bar> \<le> u * qc" "qf * (1 + 4 * u) \<le> qc"
  shows "a < C"
proof -
  have a: "a \<le> qf * (1 + u)" using assms(4) by (simp add: algebra_simps abs_le_iff)
  have C: "qc * (1 - u) \<le> C" using assms(5) by (simp add: algebra_simps abs_le_iff)
  have "qf * (1 + 4 * u) * (1 - u) \<le> qc * (1 - u)"
    using assms(6) assms(2) by (intro mult_right_mono) simp_all
  moreover have "1 + u < (1 + 4 * u) * (1 - u)"
  proof -
    have "0 < u * (2 - 4 * u)" using assms(1,2) by (intro mult_pos_pos) simp_all
    then show ?thesis by (simp add: algebra_simps)
  qed
  then have "qf * (1 + u) < qf * ((1 + 4 * u) * (1 - u))"
    using assms(3) by (intro mult_strict_left_mono)
  ultimately show ?thesis using a C by (simp add: mult.assoc)
qed

lemma fl_small:
  assumes "\<bar>x\<bar> \<le> 2 powi 80"
  shows "fl x = Fin (flr x)" "\<bar>flr x\<bar> \<le> 2 powi 80"
proof -
  have p: "flr (2 powi 80) = 2 powi 80" by (rule flr_pow2) simp
  have "x \<le> 2 powi 80" using assms by linarith
  then have 1: "flr x \<le> 2 powi 80" using flr_mono [of x "2 powi 80"] by (simp only: p)
  have "- (2 powi 80) \<le> x" using assms by linarith
  then have "flr (- (2 powi 80)) \<le> flr x" by (rule flr_mono)
  then have 2: "- (2 powi 80) \<le> flr x" by (simp only: flr_minus p)
  show b: "\<bar>flr x\<bar> \<le> 2 powi 80" using 1 2 by linarith
  have "(2::real) powi 80 < 2 powi 1024" by (intro power_int_strict_increasing) simp_all
  then have "\<bar>flr x\<bar> < 2 powi 1024" using b by linarith
  then show "fl x = Fin (flr x)" by (rule fl_Fin)
qed

lemma centre_offset:
  assumes "n < 2 ^ 32" "0 \<le> h" "h \<le> 2 powi 70"
  shows "js_div (js_sub (Fin (real n)) (Fin h)) (Fin 2) = Fin (flr (flr (real n - h) / 2))"
    and "real n \<le> h \<Longrightarrow> flr (flr (real n - h) / 2) \<le> 0"
proof -
  have n: "real n \<le> 2 powi 32" using assms(1) by simp
  have "(2::real) powi 32 \<le> 2 powi 80" "(2::real) powi 70 \<le> 2 powi 80"
    by (intro power_int_increasing; simp)+
  then have x: "\<bar>real n - h\<bar> \<le> 2 powi 80" using n assms(2,3) by linarith
  note fx = fl_small [OF x]
  have "\<bar>flr (real n - h) / 2\<bar> \<le> 2 powi 80" using fx(2) by linarith
  note fz = fl_small [OF this]
  show "js_div (js_sub (Fin (real n)) (Fin h)) (Fin 2) = Fin (flr (flr (real n - h) / 2))"
    by (simp add: fx(1) fz(1))
  assume "real n \<le> h"
  then have "flr (real n - h) \<le> flr 0" by (intro flr_mono) simp
  then have "flr (real n - h) / 2 \<le> 0" by simp
  then have "flr (flr (real n - h) / 2) \<le> flr 0" by (rule flr_mono)
  then show "flr (flr (real n - h) / 2) \<le> 0" by simp
qed

text \<open>
  Claim C3. For frame and canvas sizes between 1 and \<open>2^32 - 1\<close>, with \<open>a\<close> the
  binary64 quotient of the frame's width and height: when the binary64 canvas aspect
  exceeds \<open>a\<close>, which needs the exact canvas aspect to exceed the exact frame aspect and
  happens whenever it does so by a factor of \<open>1 + 2^-51\<close>, the rectangle takes the
  canvas width with horizontal offset 0, its height is the binary64 quotient of the canvas
  width and \<open>a\<close> and is at least the canvas height, and the vertical offset, the
  binary64 value of half the difference of canvas height and rectangle height, is at most
  0. Otherwise the rectangle takes the canvas height with vertical offset 0, its width is
  the binary64 product of the canvas height and \<open>a\<close> and is at least the canvas width
  times \<open>1 - 2^-52\<close>, and the horizontal offset is the binary64 value of half the
  difference of canvas width and rectangle width. In both cases the aspect of the
  rectangle is the frame's within a relative error of \<open>2^-51\<close>.
\<close>

theorem cover_fit:
  assumes "0 < fw" "fw < 2 ^ 32" "0 < fh" "fh < 2 ^ 32"
    and "0 < cw" "cw < 2 ^ 32" "0 < ch" "ch < 2 ^ 32"
  shows "(flr (real fw / real fh) < flr (real cw / real ch) \<longrightarrow>
            real fw / real fh < real cw / real ch \<and>
            (\<exists>h. coverFit fw fh cw ch =
                   \<lparr>offsetX = Fin 0, offsetY = Fin (flr (flr (real ch - h) / 2)),
                    drawWidth = Fin (real cw), drawHeight = Fin h\<rparr> \<and>
                 h = flr (real cw / flr (real fw / real fh)) \<and>
                 real ch \<le> h \<and>
                 \<bar>real cw / h - real fw / real fh\<bar> \<le> 2 powi (- 51) * (real fw / real fh) \<and>
                 flr (flr (real ch - h) / 2) \<le> 0)) \<and>
         (\<not> flr (real fw / real fh) < flr (real cw / real ch) \<longrightarrow>
            (\<exists>w. coverFit fw fh cw ch =
                   \<lparr>offsetX = Fin (flr (flr (real cw - w) / 2)), offsetY = Fin 0,
                    drawWidth = Fin w, drawHeight = Fin (real ch)\<rparr> \<and>
                 w = flr (real ch * flr (real fw / real fh)) \<and>
                 real cw * (1 - 2 powi (- 52)) \<le> w \<and>
                 \<bar>w / real ch - real fw / real fh\<bar> \<le> 2 powi (- 51) * (real fw / real fh))) \<and>
         (real fw / real fh * (1 + 2 powi (- 51)) \<le> real cw / real ch \<longrightarrow>
            flr (real fw / real fh) < flr (real cw / real ch))"
proof -
  define qf where "qf = real fw / real fh"
  define qc where "qc = real cw / real ch"
  define a where "a = flr qf"
  define C where "C = flr qc"
  define u :: real where "u = 2 powi (- 53)"
  have u: "0 < u" "u \<le> 1 / 4" "4 * u = 2 powi (- 51)" "2 * u = 2 powi (- 52)"
    by (simp_all add: u_def power_int_minus_divide)
  have u': "0 \<le> u" "u \<le> 1" "u \<le> 1 / 2" using u(1,2) by linarith+
  note fa = aspect_fl [OF assms(1-4), folded qf_def, folded a_def]
  note fc = aspect_fl [OF assms(5-8), folded qc_def, folded C_def]
  have dims: "0 < real fw" "0 < real fh" "0 < real cw" "0 < real ch"
    "1 \<le> real cw" "1 \<le> real ch" "real cw \<le> 2 powi 32" "real ch \<le> 2 powi 32"
    using assms by simp_all
  have qf0: "0 < qf" using dims(1,2) by (simp add: qf_def)
  have a0: "0 < a" using fa(2) by (smt (verit) zero_less_power_int)
  have ea: "\<bar>a - qf\<bar> \<le> u * qf" using fa(4) by (simp only: u_def)
  have eC: "\<bar>C - qc\<bar> \<le> u * qc" using fc(4) by (simp only: u_def)
  have frameAspect: "js_div (Fin (real fw)) (Fin (real fh)) = Fin a"
    using dims(2) fa(1) by (simp add: qf_def)
  have canvasAspect: "js_div (Fin (real cw)) (Fin (real ch)) = Fin C"
    using dims(4) fc(1) by (simp add: qc_def)
  have p32: "(2::real) powi 32 * 2 powi 32 = 2 powi 64" "(2::real) powi 32 / 2 powi (- 32) = 2 powi 64"
    by (simp_all add: pow2_mult pow2_div)
  have p70: "(2::real) powi 64 \<le> 2 powi 70" "(2::real) powi (- 70) \<le> 1"
    "(2::real) powi (- 70) \<le> 2 powi (- 32)"
    by (simp_all add: power_int_minus_divide)
  have width: "real fw / real fh < real cw / real ch \<and>
            (\<exists>h. coverFit fw fh cw ch =
                   \<lparr>offsetX = Fin 0, offsetY = Fin (flr (flr (real ch - h) / 2)),
                    drawWidth = Fin (real cw), drawHeight = Fin h\<rparr> \<and>
                 h = flr (real cw / a) \<and>
                 real ch \<le> h \<and>
                 \<bar>real cw / h - qf\<bar> \<le> 2 powi (- 51) * qf \<and>
                 flr (flr (real ch - h) / 2) \<le> 0)" if lt: "a < C"
  proof -
    have "\<not> qc \<le> qf"
    proof
      assume "qc \<le> qf"
      then have "C \<le> a" unfolding C_def a_def by (rule flr_mono)
      then show False using lt by simp
    qed
    then have strict: "real fw / real fh < real cw / real ch" by (simp add: qf_def qc_def)
    have "\<not> qc < a"
    proof
      assume "qc < a"
      then have "flr qc \<le> flr a" by (intro flr_mono) simp
      then show False using lt fa(5) by (simp add: C_def)
    qed
    then have "a \<le> real cw / real ch" by (simp add: qc_def)
    then have "a * real ch \<le> real cw" using dims(4) by (simp add: pos_le_divide_eq)
    then have lo: "real ch \<le> real cw / a" using a0 by (simp add: pos_le_divide_eq mult.commute)
    have "real cw / a \<le> real cw / 2 powi (- 32)"
      using fa(2) dims(3) by (intro divide_left_mono) simp_all
    also have "\<dots> \<le> 2 powi 32 / 2 powi (- 32)"
      using dims(7) by (intro divide_right_mono) simp_all
    finally have hi: "real cw / a \<le> 2 powi 70" using p32(2) p70(1) by linarith
    have lo': "2 powi (- 70) \<le> real cw / a" using lo dims(6) p70(2) by linarith
    note fx = fl_product [OF lo' hi]
    define h where "h = flr (real cw / a)"
    have "flr (real ch) \<le> h" unfolding h_def using lo by (rule flr_mono)
    moreover have "flr (real ch) = real ch" using assms(8) by (intro flr_of_nat) simp
    ultimately have ge: "real ch \<le> h" by simp
    have h70: "h \<le> 2 powi 70"
    proof -
      have "flr (real cw / a) \<le> flr (2 powi 70)" using hi by (rule flr_mono)
      moreover have "flr (2 powi 70) = 2 powi 70" by (rule flr_pow2) simp
      ultimately show ?thesis by (simp only: h_def)
    qed
    have h0: "0 \<le> h" using ge dims(4) by linarith
    have eh: "\<bar>h - real cw / a\<bar> \<le> u * (real cw / a)" using fx(2) by (simp only: h_def u_def)
    have "\<bar>real cw / h - qf\<bar> \<le> 4 * u * qf"
      using u'(1,3) qf0 ea dims(3) eh by (rule tol_div)
    then have asp: "\<bar>real cw / h - qf\<bar> \<le> 2 powi (- 51) * qf" by (simp only: u(3))
    note off = centre_offset [OF assms(8) h0 h70]
    have dh: "js_div (Fin (real cw)) (Fin a) = Fin h" using a0 fx(1) by (simp add: h_def)
    have "coverFit fw fh cw ch =
            \<lparr>offsetX = Fin 0, offsetY = Fin (flr (flr (real ch - h) / 2)),
             drawWidth = Fin (real cw), drawHeight = Fin h\<rparr>"
      unfolding coverFit_def frameAspect canvasAspect Let_def dh off(1) using lt by simp
    then show ?thesis using strict h_def ge asp off(2) [OF ge] by blast
  qed
  have height: "\<exists>w. coverFit fw fh cw ch =
                   \<lparr>offsetX = Fin (flr (flr (real cw - w) / 2)), offsetY = Fin 0,
                    drawWidth = Fin w, drawHeight = Fin (real ch)\<rparr> \<and>
                 w = flr (real ch * a) \<and>
                 real cw * (1 - 2 powi (- 52)) \<le> w \<and>
                 \<bar>w / real ch - qf\<bar> \<le> 2 powi (- 51) * qf" if ge: "\<not> a < C"
  proof -
    have Ca: "C \<le> a" using ge by simp
    have "1 * 2 powi (- 32) \<le> real ch * a" using dims(6) fa(2) by (intro mult_mono) simp_all
    then have lo: "2 powi (- 70) \<le> real ch * a" using p70(3) by linarith
    have "real ch * a \<le> 2 powi 32 * 2 powi 32" using dims(8) fa(3) a0 by (intro mult_mono) simp_all
    then have hi: "real ch * a \<le> 2 powi 70" using p32(1) p70(1) by linarith
    note fx = fl_product [OF lo hi]
    define w where "w = flr (real ch * a)"
    have ew: "\<bar>w - real ch * a\<bar> \<le> u * (real ch * a)" using fx(2) by (simp only: w_def u_def)
    have eC': "\<bar>C - real cw / real ch\<bar> \<le> u * (real cw / real ch)" using eC by (simp only: qc_def)
    have "real cw * (1 - 2 * u) \<le> w"
      using u'(1,2) dims(3,4) eC' Ca ew by (rule cover_lower)
    then have cov: "real cw * (1 - 2 powi (- 52)) \<le> w" by (simp only: u(4))
    have "\<bar>w / real ch - qf\<bar> \<le> 4 * u * qf"
      using u'(1,2) less_imp_le [OF qf0] ea dims(4) ew by (rule tol_mul)
    then have asp: "\<bar>w / real ch - qf\<bar> \<le> 2 powi (- 51) * qf" by (simp only: u(3))
    have w0: "0 \<le> w" using fx(3) by (simp add: w_def)
    have w70: "w \<le> 2 powi 70"
    proof -
      have "flr (real ch * a) \<le> flr (2 powi 70)" using hi by (rule flr_mono)
      moreover have "flr (2 powi 70) = 2 powi 70" by (rule flr_pow2) simp
      ultimately show ?thesis by (simp only: w_def)
    qed
    note off = centre_offset [OF assms(6) w0 w70]
    have dw: "js_mul (Fin (real ch)) (Fin a) = Fin w" using fx(1) by (simp add: w_def)
    have "coverFit fw fh cw ch =
            \<lparr>offsetX = Fin (flr (flr (real cw - w) / 2)), offsetY = Fin 0,
             drawWidth = Fin w, drawHeight = Fin (real ch)\<rparr>"
      unfolding coverFit_def frameAspect canvasAspect Let_def dw off(1) using ge by simp
    then show ?thesis using w_def cov asp by blast
  qed
  have margin: "a < C" if "qf * (1 + 2 powi (- 51)) \<le> qc"
  proof -
    have "qf * (1 + 4 * u) \<le> qc" using that by (simp only: u(3))
    with u(1,2) qf0 ea eC show ?thesis by (rule branch_margin)
  qed
  show ?thesis
    using width height margin unfolding a_def C_def qf_def qc_def by blast
qed

lemma fl_flr: "fl x = Fin y \<Longrightarrow> flr x = y"
  by (simp add: fl_def split: if_splits)

text \<open>
  The rectangle can be narrower than the canvas: for a 480 by 854 frame on a 480 by 854
  canvas the quotient 480/854 is rounded down, its product with 854 is below 480, and
  the rectangle starts to the right of the canvas's left edge.
\<close>

lemma fl_480_854: "fl (480 / 854) = Fin (2531297214447117 / 2 ^ 52)"
  by (simp add: fl_eval [of "- 1"] round_even_def Let_def)

lemma fl_854_by: "fl (854 * (2531297214447117 / 2 ^ 52)) = Fin (8444249301319679 / 2 ^ 44)"
  by (simp add: fl_eval [of 8] round_even_def Let_def)

lemma fl_480_minus: "fl (480 - 8444249301319679 / 2 ^ 44) = Fin (1 / 2 ^ 44)"
  using fl_exact [of "1 / 2 ^ 44" 1 "- 44"] by (simp add: power_int_minus_divide)

lemma fl_half_44: "fl (1 / 2 ^ 44 / 2) = Fin (1 / 2 ^ 45)"
  using fl_exact [of "1 / 2 ^ 45" 1 "- 45"] by (simp add: power_int_minus_divide)

theorem cover_fit_counterexample:
  "coverFit 480 854 480 854 =
     \<lparr>offsetX = Fin (1 / 2 ^ 45), offsetY = Fin 0,
      drawWidth = Fin (8444249301319679 / 2 ^ 44), drawHeight = Fin 854\<rparr> \<and>
   (8444249301319679 / 2 ^ 44 :: real) < 480"
  using fl_480_854 fl_854_by fl_480_minus fl_half_44 by (simp add: coverFit_def Let_def)

theorem cover_fit_witness:
  "coverFit 4 3 1600 900 =
     \<lparr>offsetX = Fin 0, offsetY = Fin (- 150), drawWidth = Fin 1600, drawHeight = Fin 1200\<rparr> \<and>
   flr (4 / 3) < flr (1600 / 900) \<and> (4 / 3 :: real) < 1600 / 900 \<and>
   (\<exists>h. drawHeight (coverFit 4 3 1600 900) = Fin h \<and> 900 \<le> h \<and>
        \<bar>1600 / h - 4 / 3\<bar> \<le> 2 powi (- 51) * (4 / 3))"
proof -
  have lt: "flr (real 4 / real 3) < flr (real 1600 / real 900)"
    using fl_flr [OF fl_4_3] fl_flr [OF fl_16_9] by simp
  have pre: "(0::nat) < 4" "(4::nat) < 2 ^ 32" "(0::nat) < 3" "(3::nat) < 2 ^ 32"
    "(0::nat) < 1600" "(1600::nat) < 2 ^ 32" "(0::nat) < 900" "(900::nat) < 2 ^ 32"
    by simp_all
  note c = cover_fit [OF pre]
  from c lt have "real 4 / real 3 < real 1600 / real 900 \<and>
     (\<exists>h. coverFit 4 3 1600 900 =
            \<lparr>offsetX = Fin 0, offsetY = Fin (flr (flr (real 900 - h) / 2)),
             drawWidth = Fin (real 1600), drawHeight = Fin h\<rparr> \<and>
          h = flr (real 1600 / flr (real 4 / real 3)) \<and>
          real 900 \<le> h \<and>
          \<bar>real 1600 / h - real 4 / real 3\<bar> \<le> 2 powi (- 51) * (real 4 / real 3) \<and>
          flr (flr (real 900 - h) / 2) \<le> 0)"
    by blast
  then obtain h where h: "drawHeight (coverFit 4 3 1600 900) = Fin h" "real 900 \<le> h"
    "\<bar>real 1600 / h - real 4 / real 3\<bar> \<le> 2 powi (- 51) * (real 4 / real 3)"
    by auto
  have e: "\<exists>h. drawHeight (coverFit 4 3 1600 900) = Fin h \<and> 900 \<le> h \<and>
        \<bar>1600 / h - 4 / 3\<bar> \<le> 2 powi (- 51) * (4 / 3)"
    using h by (intro exI [of _ h]) simp
  have l: "flr (4 / 3) < flr (1600 / 900)" using lt by simp
  have s: "(4 / 3 :: real) < 1600 / 900" by simp
  show ?thesis using coverFit_4_3_1600_900 l s e by blast
qed

end
